theory Spec2Isabelle
  imports Main
begin

section \<open>Identities, events and handles\<close>

text \<open>
  Elements, context identifiers and functions are compared by identity in the source
  (\<^verbatim>\<open>===\<close> and \<^verbatim>\<open>!==\<close>), so each is a token. A callback token names the arrow function
  \<^verbatim>\<open>_callback\<close> that a consumer instance creates once at construction.
\<close>

type_synonym element = nat
type_synonym context_id = nat
type_synonym callback = nat

text \<open>
  An unsubscribe handle is a function value handed out by a provider; the consumer only
  stores it, compares it by identity and calls it. The token records which provider made
  it, for which callback, and at which registration.
\<close>

datatype handle = Disposer (of_provider: nat) (of_callback: callback) (serial: nat)

text \<open>
  \<^verbatim>\<open>new ContextRequestEvent(context, callback, subscribe)\<close>: the carrier of a request.
\<close>

record request_event =
  ev_context :: context_id
  ev_callback :: callback
  ev_subscribe :: bool

text \<open>
  What a consumer does to the outside: calling an unsubscribe handle, calling the
  user-supplied callback, dispatching a request event at an element.
\<close>

datatype 'v effect =
    Unsubscribe handle
  | Callback "'v option" "handle option"
  | Dispatch element request_event

fun is_Callback :: "'v effect \<Rightarrow> bool" where
  "is_Callback (Callback v u) = True"
| "is_Callback _ = False"

fun unsubscribed :: "'v effect list \<Rightarrow> handle list" where
  "unsubscribed [] = []"
| "unsubscribed (Unsubscribe h # es) = h # unsubscribed es"
| "unsubscribed (_ # es) = unsubscribed es"

fun dispatched :: "'v effect list \<Rightarrow> (element \<times> request_event) list" where
  "dispatched [] = []"
| "dispatched (Dispatch e ev # es) = (e, ev) # dispatched es"
| "dispatched (_ # es) = dispatched es"

section \<open>ContextConsumer (src/lib/controllers/context-consumer.ts)\<close>

text \<open>
  The fields of the class. \<open>c_callback\<close> says whether the optional user callback was
  supplied; \<open>c_value\<close> is \<open>None\<close> for \<^verbatim>\<open>undefined\<close>; \<open>c_self\<close> is the identity of the
  instance's \<^verbatim>\<open>_callback\<close> arrow function.
\<close>

record 'v consumer =
  c_host :: "element option"
  c_context :: context_id
  c_callback :: bool
  c_subscribe :: bool
  c_provided :: bool
  c_value :: "'v option"
  c_unsubscribe :: "handle option"
  c_self :: callback

definition new_consumer :: "callback \<Rightarrow> context_id \<Rightarrow> bool \<Rightarrow> bool option \<Rightarrow> 'v consumer" where
  "new_consumer self ctx cb sub =
     \<lparr> c_host = None, c_context = ctx, c_callback = cb,
       c_subscribe = (case sub of None \<Rightarrow> False | Some b \<Rightarrow> b),
       c_provided = False, c_value = None, c_unsubscribe = None, c_self = self \<rparr>"

text \<open>
  Lines 89-100 of \<^verbatim>\<open>_callback\<close>: the block guarded by \<^verbatim>\<open>if (this.unsubscribe)\<close>. Both calls
  inside it are calls of the stored handle \<^verbatim>\<open>this.unsubscribe\<close>.
\<close>

definition is_handoff :: "'v consumer \<Rightarrow> handle option \<Rightarrow> bool" where
  "is_handoff c u = (case c_unsubscribe c of None \<Rightarrow> False | Some h \<Rightarrow> Some h \<noteq> u)"

definition cleanup :: "'v consumer \<Rightarrow> handle option \<Rightarrow> 'v consumer \<times> 'v effect list" where
  "cleanup c u =
     (case c_unsubscribe c of
        None \<Rightarrow> (c, [])
      | Some h \<Rightarrow>
          (let (c1, e1) = (if Some h \<noteq> u then (c\<lparr>c_provided := False\<rparr>, [Unsubscribe h])
                           else (c, []));
               e2 = (if \<not> c_subscribe c1 then [Unsubscribe h] else [])
           in (c1, e1 @ e2)))"

text \<open>Lines 87-116: the whole delivery callback.\<close>

definition consumer_callback ::
  "'v consumer \<Rightarrow> 'v option \<Rightarrow> handle option \<Rightarrow> 'v consumer \<times> 'v effect list" where
  "consumer_callback c v u =
     (let (c1, e1) = cleanup c u;
          c2 = c1\<lparr>c_value := v\<rparr>;
          (c3, e3) = (if \<not> c_provided c2 \<or> c_subscribe c2
                      then (c2\<lparr>c_provided := True\<rparr>,
                            if c_callback c2 then [Callback v u] else [])
                      else (c2, []));
          c4 = c3\<lparr>c_unsubscribe := u\<rparr>
      in (c4, e1 @ e3))"

text \<open>
  \<^verbatim>\<open>dispatchRequest\<close>: \<^verbatim>\<open>this.host?.$fastController.element\<close> is the host element itself;
  with no host nothing is dispatched.
\<close>

definition dispatchRequest :: "'v consumer \<Rightarrow> 'v effect list" where
  "dispatchRequest c =
     (case c_host c of
        None \<Rightarrow> []
      | Some e \<Rightarrow> [Dispatch e \<lparr> ev_context = c_context c, ev_callback = c_self c,
                               ev_subscribe = c_subscribe c \<rparr>])"

definition hostConnected :: "'v consumer \<Rightarrow> 'v consumer \<times> 'v effect list" where
  "hostConnected c = (c, dispatchRequest c)"

definition hostDisconnected :: "'v consumer \<Rightarrow> 'v consumer \<times> 'v effect list" where
  "hostDisconnected c =
     (case c_unsubscribe c of
        None \<Rightarrow> (c, [])
      | Some h \<Rightarrow> (c\<lparr>c_unsubscribe := None\<rparr>, [Unsubscribe h]))"

definition bind :: "element \<Rightarrow> 'v consumer \<Rightarrow> 'v consumer \<times> 'v effect list" where
  "bind source c = hostConnected (c\<lparr>c_host := Some source\<rparr>)"

definition unbind :: "'v consumer \<Rightarrow> 'v consumer \<times> 'v effect list" where
  "unbind c = hostDisconnected c"

text \<open>
  The life of one instance: the calls it can receive from its host framework and from
  providers, run in order; the effects are collected in order.
\<close>

datatype 'v call =
    Bind element
  | Unbind
  | HostConnected
  | HostDisconnected
  | Deliver "'v option" "handle option"

fun is_Deliver :: "'v call \<Rightarrow> bool" where
  "is_Deliver (Deliver v u) = True"
| "is_Deliver _ = False"

fun step :: "'v consumer \<Rightarrow> 'v call \<Rightarrow> 'v consumer \<times> 'v effect list" where
  "step c (Bind e) = bind e c"
| "step c Unbind = unbind c"
| "step c HostConnected = hostConnected c"
| "step c HostDisconnected = hostDisconnected c"
| "step c (Deliver v u) = consumer_callback c v u"

fun run :: "'v consumer \<Rightarrow> 'v call list \<Rightarrow> 'v consumer \<times> 'v effect list" where
  "run c [] = (c, [])"
| "run c (x # xs) =
     (let (c1, e1) = step c x; (c2, e2) = run c1 xs in (c2, e1 @ e2))"

text \<open>The number of deliveries in a life that are hand-offs at the moment they arrive.\<close>

fun handoffs :: "'v consumer \<Rightarrow> 'v call list \<Rightarrow> nat" where
  "handoffs c [] = 0"
| "handoffs c (x # xs) =
     (case x of
        Deliver v u \<Rightarrow> (if is_handoff c u then 1 else 0) + handoffs (fst (step c x)) xs
      | _ \<Rightarrow> handoffs (fst (step c x)) xs)"

section \<open>ValueNotifier: the subscription registry of a provider\<close>

text \<open>
  \<^verbatim>\<open>this.subscriptions\<close> is iterated as a JavaScript \<^verbatim>\<open>Map\<close> from callback to
  \<^verbatim>\<open>{consumerHost, ...}\<close>. ECMAScript keeps a Map as a list of entries in insertion order;
  deleting an entry empties its slot, setting a new key appends, and an iterator is an
  index into that list that skips emptied slots and sees entries appended meanwhile.
\<close>

record subscription =
  consumerHost :: element
  disposer :: handle

type_synonym subscriptions = "(callback \<times> subscription) option list"

fun live :: "subscriptions \<Rightarrow> (callback \<times> subscription) list" where
  "live [] = []"
| "live (None # m) = live m"
| "live (Some kv # m) = kv # live m"

definition map_has :: "callback \<Rightarrow> subscriptions \<Rightarrow> bool" where
  "map_has k m = (k \<in> set (map fst (live m)))"

definition map_get :: "callback \<Rightarrow> subscriptions \<Rightarrow> subscription option" where
  "map_get k m = map_of (live m) k"

definition map_delete :: "callback \<Rightarrow> subscriptions \<Rightarrow> subscriptions" where
  "map_delete k m =
     map (\<lambda>slot. case slot of None \<Rightarrow> None
                 | Some (k', v) \<Rightarrow> if k' = k then None else Some (k', v)) m"

definition map_set :: "callback \<Rightarrow> subscription \<Rightarrow> subscriptions \<Rightarrow> subscriptions" where
  "map_set k v m =
     (if map_has k m
      then map (\<lambda>slot. case slot of None \<Rightarrow> None
                     | Some (k', v') \<Rightarrow> if k' = k then Some (k', v) else Some (k', v')) m
      else m @ [Some (k, v)])"

section \<open>ContextProvider (src/lib/controllers/context-provider.ts and its HTMLElement variant)\<close>

text \<open>
  The fields of the class and of the \<^verbatim>\<open>ValueNotifier\<close> it extends. \<open>p_id\<close> is the identity
  of the instance and \<open>p_serial\<close> counts its registrations: together they name the
  closures it hands out as unsubscribe handles.
\<close>

record 'v provider =
  p_host :: "element option"
  p_context :: context_id
  p_value :: "'v option"
  p_subscriptions :: subscriptions
  p_serial :: nat
  p_id :: nat

definition new_provider :: "nat \<Rightarrow> element option \<Rightarrow> context_id \<Rightarrow> 'v option \<Rightarrow> 'v provider" where
  "new_provider self el ctx initialValue =
     \<lparr> p_host = el, p_context = ctx, p_value = initialValue, p_subscriptions = [],
       p_serial = 0, p_id = self \<rparr>"

text \<open>A call of a delivery callback: which callback, with which value and handle.\<close>

type_synonym 'v delivery = "callback \<times> 'v option \<times> handle option"

text \<open>
  Modelled from the spec: \<^verbatim>\<open>ValueNotifier.addCallback\<close> (value-notifier.ts is not among the
  sources). The spec: the provider "registers the callback in its Value Notifier, and
  immediately invokes the callback with the current value; if subscribe was requested,
  the Provider retains the callback and re-invokes it on every value change, passing an
  unsubscribe handle". A subscription is "a mapping from callback-identity to
  {consumerHost, unsubscribe}", "each callback is a distinct key", re-registration is
  idempotent, and the handle's identity "must stay stable for the life of one
  subscription registration but differs across different Providers / different
  registration events".
\<close>

definition addCallback ::
  "callback \<Rightarrow> element \<Rightarrow> bool \<Rightarrow> 'v provider \<Rightarrow> 'v provider \<times> 'v delivery" where
  "addCallback cb host subscribe p =
     (if \<not> subscribe then (p, (cb, p_value p, None))
      else
        (let p1 = (if map_has cb (p_subscriptions p) then p
                   else p\<lparr> p_subscriptions :=
                              map_set cb \<lparr> consumerHost = host,
                                           disposer = Disposer (p_id p) cb (p_serial p) \<rparr>
                                (p_subscriptions p),
                            p_serial := Suc (p_serial p) \<rparr>)
         in (p1, (cb, p_value p1, map_option disposer (map_get cb (p_subscriptions p1))))))"

text \<open>
  Modelled from the spec: the unsubscribe handle of a subscription (value-notifier.ts is
  not among the sources): "each subscription is given a function that removes its entry
  from the Value Notifier".
\<close>

definition remove_entry :: "handle \<Rightarrow> 'v provider \<Rightarrow> 'v provider" where
  "remove_entry h p =
     p\<lparr> p_subscriptions :=
          map (\<lambda>slot. case slot of None \<Rightarrow> None
                      | Some (k, s) \<Rightarrow> if disposer s = h then None else Some (k, s))
            (p_subscriptions p) \<rparr>"

text \<open>
  An event path as \<^verbatim>\<open>composedPath()\<close> gives it inside a listener: the originating element
  first (\<^verbatim>\<open>composedPath()[0]\<close>), then its ancestors outwards.
\<close>

type_synonym path = "element \<times> element list"

text \<open>
  \<^verbatim>\<open>onContextRequest\<close>: the new provider, whether \<^verbatim>\<open>stopPropagation\<close> was called, and the
  callback call that \<^verbatim>\<open>addCallback\<close> makes.
\<close>

definition onContextRequest ::
  "'v provider \<Rightarrow> path \<Rightarrow> request_event \<Rightarrow> 'v provider \<times> bool \<times> 'v delivery list" where
  "onContextRequest p pth ev =
     (let consumerHost = fst pth
      in if ev_context ev \<noteq> p_context p \<or> Some consumerHost = p_host p
         then (p, False, [])
         else (let (p1, call) = addCallback (ev_callback ev) consumerHost (ev_subscribe ev) p
               in (p1, True, [call])))"

text \<open>\<^verbatim>\<open>new ContextProviderEvent(context)\<close>.\<close>

record provider_event =
  pe_context :: context_id

text \<open>
  The \<^verbatim>\<open>for ... of this.subscriptions\<close> loop of \<^verbatim>\<open>onProviderRequest\<close>. Each
  \<^verbatim>\<open>dispatchEvent\<close> runs listeners synchronously and may change the registry under the
  iterator, so the loop reads the registry from the current state at every step. The
  state \<open>'s\<close> is whatever \<^verbatim>\<open>dispatchEvent\<close> can change; \<open>subs\<close> reads this provider's
  registry from it. The loop is bounded by fuel: \<open>None\<close> is a pass that does not end
  within it. The result lists the request events dispatched, in order.
\<close>

fun reparent ::
  "nat \<Rightarrow> (element \<Rightarrow> request_event \<Rightarrow> 's \<Rightarrow> 's) \<Rightarrow> ('s \<Rightarrow> subscriptions) \<Rightarrow> context_id
     \<Rightarrow> nat \<Rightarrow> callback set \<Rightarrow> 's \<Rightarrow> ('s \<times> (element \<times> request_event) list) option" where
  "reparent 0 dispatchEvent subs ctx i seen s =
     (if i < length (subs s) then None else Some (s, []))"
| "reparent (Suc n) dispatchEvent subs ctx i seen s =
     (if i < length (subs s) then
        (case subs s ! i of
           None \<Rightarrow> reparent n dispatchEvent subs ctx (Suc i) seen s
         | Some (cb, sub) \<Rightarrow>
             if cb \<in> seen then reparent n dispatchEvent subs ctx (Suc i) seen s
             else
               (let ev = \<lparr> ev_context = ctx, ev_callback = cb, ev_subscribe = True \<rparr>;
                    s1 = dispatchEvent (consumerHost sub) ev s
                in map_option (\<lambda>(s2, evs). (s2, (consumerHost sub, ev) # evs))
                     (reparent n dispatchEvent subs ctx (Suc i) (insert cb seen) s1)))
      else Some (s, []))"

text \<open>
  A \<^verbatim>\<open>dispatchEvent\<close> that, in this provider's registry, touches at most the entry of the
  callback whose request it dispatches: it leaves the registry alone (the request comes
  back to this provider), or deletes that entry (another provider took the consumer
  over), or deletes it and sets it again (two providers on one host).
\<close>

definition own_entry_only ::
  "(element \<Rightarrow> request_event \<Rightarrow> 's \<Rightarrow> 's) \<Rightarrow> ('s \<Rightarrow> subscriptions) \<Rightarrow> bool" where
  "own_entry_only dispatchEvent subs =
     (\<forall>h ev s.
        subs (dispatchEvent h ev s) = subs s
        \<or> subs (dispatchEvent h ev s) = map_delete (ev_callback ev) (subs s)
        \<or> (\<exists>v. subs (dispatchEvent h ev s)
                 = map_set (ev_callback ev) v (map_delete (ev_callback ev) (subs s))))"

text \<open>The request event the pass dispatches for one entry of the registry.\<close>

definition reparent_event ::
  "context_id \<Rightarrow> callback \<times> subscription \<Rightarrow> element \<times> request_event" where
  "reparent_event ctx kv =
     (consumerHost (snd kv),
      \<lparr> ev_context = ctx, ev_callback = fst kv, ev_subscribe = True \<rparr>)"

text \<open>
  \<^verbatim>\<open>onProviderRequest\<close>: the new state, whether \<^verbatim>\<open>stopPropagation\<close> was called on the
  announcement, and the request events dispatched.
\<close>

definition onProviderRequest ::
  "nat \<Rightarrow> (element \<Rightarrow> request_event \<Rightarrow> 's \<Rightarrow> 's) \<Rightarrow> ('s \<Rightarrow> subscriptions)
     \<Rightarrow> context_id \<Rightarrow> element option \<Rightarrow> path \<Rightarrow> provider_event \<Rightarrow> 's
     \<Rightarrow> ('s \<times> bool \<times> (element \<times> request_event) list) option" where
  "onProviderRequest fuel dispatchEvent subs this_context this_host pth ev s =
     (let childProviderHost = fst pth
      in if pe_context ev \<noteq> this_context \<or> Some childProviderHost = this_host
         then Some (s, False, [])
         else map_option (\<lambda>(s1, evs). (s1, True, evs))
                (reparent fuel dispatchEvent subs this_context 0 {} s))"

section \<open>The document, listeners and event dispatch\<close>

text \<open>
  The document is a forest of elements. \<^verbatim>\<open>composedPath()\<close> of an event dispatched at an
  element is that element followed by its ancestors; an element that is in no tree is
  alone on its path.
\<close>

datatype dom = Element element "dom list"

fun path_to :: "element \<Rightarrow> dom \<Rightarrow> element list"
  and path_to_any :: "element \<Rightarrow> dom list \<Rightarrow> element list" where
  "path_to e (Element x kids) =
     (if x = e then [x] else (case path_to_any e kids of [] \<Rightarrow> [] | y # ys \<Rightarrow> (y # ys) @ [x]))"
| "path_to_any e [] = []"
| "path_to_any e (k # ks) = (case path_to e k of [] \<Rightarrow> path_to_any e ks | y # ys \<Rightarrow> y # ys)"

datatype event_type = ContextRequest | ContextProvider

text \<open>
  The world: the document, the provider and consumer instances (a consumer's index is
  the identity of its \<^verbatim>\<open>_callback\<close>, a provider's index is its \<open>p_id\<close>), the listeners
  registered on elements in registration order, the calls made to user-supplied
  callbacks so far, and the calls providers made to delivery callbacks so far.
\<close>

record 'v world =
  w_dom :: "dom list"
  w_providers :: "'v provider list"
  w_consumers :: "'v consumer list"
  w_listeners :: "(element \<times> event_type \<times> nat) list"
  w_calls :: "'v delivery list"
  w_deliveries :: "'v delivery list"

definition composedPath :: "'v world \<Rightarrow> element \<Rightarrow> path" where
  "composedPath w e = (case path_to_any e (w_dom w) of [] \<Rightarrow> (e, []) | x # xs \<Rightarrow> (x, xs))"

definition addEventListener :: "element \<Rightarrow> event_type \<Rightarrow> nat \<Rightarrow> 'v world \<Rightarrow> 'v world" where
  "addEventListener e t pid w =
     (if (e, t, pid) \<in> set (w_listeners w) then w
      else w\<lparr> w_listeners := w_listeners w @ [(e, t, pid)] \<rparr>)"

definition removeEventListener :: "element \<Rightarrow> event_type \<Rightarrow> nat \<Rightarrow> 'v world \<Rightarrow> 'v world" where
  "removeEventListener e t pid w = w\<lparr> w_listeners := removeAll (e, t, pid) (w_listeners w) \<rparr>"

definition listeners_at :: "event_type \<Rightarrow> element \<Rightarrow> 'v world \<Rightarrow> nat list" where
  "listeners_at t e w = map (snd \<circ> snd) (filter (\<lambda>l. fst l = e \<and> fst (snd l) = t) (w_listeners w))"

text \<open>Calling an unsubscribe handle runs the closure of the provider that made it.\<close>

definition invoke_disposer :: "handle \<Rightarrow> 'v world \<Rightarrow> 'v world" where
  "invoke_disposer h w =
     (let pid = of_provider h
      in if pid < length (w_providers w)
         then w\<lparr> w_providers := (w_providers w)[pid := remove_entry h (w_providers w ! pid)] \<rparr>
         else w)"

text \<open>
  The effects of a delivery callback, carried out: handles are called, the user-supplied
  callback is recorded. The delivery callback dispatches no event.
\<close>

fun perform :: "callback \<Rightarrow> 'v world \<Rightarrow> 'v effect \<Rightarrow> 'v world" where
  "perform cb w (Unsubscribe h) = invoke_disposer h w"
| "perform cb w (Callback v u) = w\<lparr> w_calls := w_calls w @ [(cb, v, u)] \<rparr>"
| "perform cb w (Dispatch e ev) = w"

text \<open>
  A provider calling \<^verbatim>\<open>callback(value, disposer)\<close>: the consumer that owns the callback
  runs \<^verbatim>\<open>_callback\<close>. A callback that belongs to no consumer of the world is foreign code.
\<close>

definition deliver :: "'v world \<Rightarrow> 'v delivery \<Rightarrow> 'v world" where
  "deliver w d =
     (case d of (cb, v, u) \<Rightarrow>
        if cb < length (w_consumers w)
        then (let (c1, es) = consumer_callback (w_consumers w ! cb) v u
              in foldl (perform cb)
                   (w\<lparr> w_consumers := (w_consumers w)[cb := c1],
                      w_deliveries := w_deliveries w @ [d] \<rparr>) es)
        else w\<lparr> w_deliveries := w_deliveries w @ [d] \<rparr>)"

text \<open>
  A \<^verbatim>\<open>context-request\<close> event reaching one element: the listeners registered there run in
  order, all of them (\<^verbatim>\<open>stopPropagation\<close> does not stop the listeners of the current
  element); the flag says whether one of them stopped the propagation.
\<close>

definition request_listener ::
  "path \<Rightarrow> request_event \<Rightarrow> 'v world \<times> bool \<Rightarrow> nat \<Rightarrow> 'v world \<times> bool" where
  "request_listener pth ev ws pid =
     (case ws of (w, stopped) \<Rightarrow>
        if pid < length (w_providers w)
        then (case onContextRequest (w_providers w ! pid) pth ev of (p1, stop, calls) \<Rightarrow>
                (foldl deliver (w\<lparr> w_providers := (w_providers w)[pid := p1] \<rparr>) calls,
                 stopped \<or> stop))
        else (w, stopped))"

text \<open>
  Bubbling: the elements of the path innermost first, until a listener has stopped the
  propagation. The result also lists the elements the event reached.
\<close>

fun bubble_request ::
  "path \<Rightarrow> request_event \<Rightarrow> element list \<Rightarrow> 'v world \<Rightarrow> 'v world \<times> element list" where
  "bubble_request pth ev [] w = (w, [])"
| "bubble_request pth ev (e # es) w =
     (case foldl (request_listener pth ev) (w, False) (listeners_at ContextRequest e w) of
        (w1, stopped) \<Rightarrow>
          if stopped then (w1, [e])
          else (case bubble_request pth ev es w1 of (w2, reached) \<Rightarrow> (w2, e # reached)))"

definition dispatch_request :: "element \<Rightarrow> request_event \<Rightarrow> 'v world \<Rightarrow> 'v world" where
  "dispatch_request e ev w =
     (let pth = composedPath w e in fst (bubble_request pth ev (fst pth # snd pth) w))"

text \<open>
  A \<^verbatim>\<open>context-provider\<close> event reaching one element, and bubbling. A pass of
  \<^verbatim>\<open>onProviderRequest\<close> that does not end makes the whole dispatch not end.
\<close>

definition provider_listener ::
  "nat \<Rightarrow> path \<Rightarrow> provider_event \<Rightarrow> ('v world \<times> bool) option \<Rightarrow> nat \<Rightarrow> ('v world \<times> bool) option" where
  "provider_listener fuel pth ev ws pid =
     (case ws of
        None \<Rightarrow> None
      | Some (w, stopped) \<Rightarrow>
          if pid < length (w_providers w)
          then map_option (\<lambda>(w1, stop, evs). (w1, stopped \<or> stop))
                 (onProviderRequest fuel dispatch_request
                    (\<lambda>w. p_subscriptions (w_providers w ! pid))
                    (p_context (w_providers w ! pid)) (p_host (w_providers w ! pid)) pth ev w)
          else Some (w, stopped))"

fun bubble_provider ::
  "nat \<Rightarrow> path \<Rightarrow> provider_event \<Rightarrow> element list \<Rightarrow> 'v world \<Rightarrow> 'v world option" where
  "bubble_provider fuel pth ev [] w = Some w"
| "bubble_provider fuel pth ev (e # es) w =
     (case foldl (provider_listener fuel pth ev) (Some (w, False))
             (listeners_at ContextProvider e w) of
        None \<Rightarrow> None
      | Some (w1, stopped) \<Rightarrow> if stopped then Some w1 else bubble_provider fuel pth ev es w1)"

definition dispatch_provider :: "nat \<Rightarrow> element \<Rightarrow> provider_event \<Rightarrow> 'v world \<Rightarrow> 'v world option" where
  "dispatch_provider fuel e ev w =
     (let pth = composedPath w e in bubble_provider fuel pth ev (fst pth # snd pth) w)"

section \<open>Lifecycle of providers and consumers in the world\<close>

text \<open>
  The HTMLElement variant of the provider: \<^verbatim>\<open>hostConnected\<close> adds both listeners on the
  host and announces the provider; \<^verbatim>\<open>hostDisconnected\<close> removes both listeners;
  \<^verbatim>\<open>bind\<close> and \<^verbatim>\<open>unbind\<close> call them. When these calls happen is the host
  framework's business (for a plain element, the constructor's \<^verbatim>\<open>ResizeObserver\<close>); the
  model starts at the calls.
\<close>

definition provider_hostConnected :: "nat \<Rightarrow> nat \<Rightarrow> 'v world \<Rightarrow> 'v world option" where
  "provider_hostConnected fuel pid w =
     (case p_host (w_providers w ! pid) of
        None \<Rightarrow> Some w
      | Some h \<Rightarrow>
          dispatch_provider fuel h \<lparr> pe_context = p_context (w_providers w ! pid) \<rparr>
            (addEventListener h ContextProvider pid (addEventListener h ContextRequest pid w)))"

definition provider_hostDisconnected :: "nat \<Rightarrow> 'v world \<Rightarrow> 'v world" where
  "provider_hostDisconnected pid w =
     (case p_host (w_providers w ! pid) of
        None \<Rightarrow> w
      | Some h \<Rightarrow>
          removeEventListener h ContextProvider pid (removeEventListener h ContextRequest pid w))"

definition provider_bind :: "nat \<Rightarrow> nat \<Rightarrow> 'v world \<Rightarrow> 'v world option" where
  "provider_bind fuel pid w = provider_hostConnected fuel pid w"

definition provider_unbind :: "nat \<Rightarrow> 'v world \<Rightarrow> 'v world" where
  "provider_unbind pid w = provider_hostDisconnected pid w"

text \<open>
  The FASTElement-behavior variant (src/lib/controllers/context-provider.ts):
  \<^verbatim>\<open>bind(source)\<close> stores the host, \<^verbatim>\<open>attachListeners\<close> adds both listeners,
  \<^verbatim>\<open>hostConnected\<close> only announces; the body of \<^verbatim>\<open>unbind\<close> is empty.
\<close>

definition attachListeners :: "nat \<Rightarrow> 'v world \<Rightarrow> 'v world" where
  "attachListeners pid w =
     (case p_host (w_providers w ! pid) of
        None \<Rightarrow> w
      | Some h \<Rightarrow> addEventListener h ContextProvider pid (addEventListener h ContextRequest pid w))"

definition fast_hostConnected :: "nat \<Rightarrow> nat \<Rightarrow> 'v world \<Rightarrow> 'v world option" where
  "fast_hostConnected fuel pid w =
     (case p_host (w_providers w ! pid) of
        None \<Rightarrow> Some w
      | Some h \<Rightarrow> dispatch_provider fuel h \<lparr> pe_context = p_context (w_providers w ! pid) \<rparr> w)"

definition fast_bind :: "nat \<Rightarrow> nat \<Rightarrow> element \<Rightarrow> 'v world \<Rightarrow> 'v world option" where
  "fast_bind fuel pid source w =
     fast_hostConnected fuel pid
       (attachListeners pid
          (w\<lparr> w_providers := (w_providers w)[pid := (w_providers w ! pid)\<lparr> p_host := Some source \<rparr>] \<rparr>))"

definition fast_unbind :: "nat \<Rightarrow> 'v world \<Rightarrow> 'v world" where
  "fast_unbind pid w = w"

text \<open>
  Modelled from the spec: \<^verbatim>\<open>ValueNotifier.setValue\<close> (value-notifier.ts is not among the
  sources): it "updates the stored value and broadcasts to every active subscription's
  callback, passing the provider's own unsubscribe-generator for that subscription
  (unchanged per subscription)". The broadcast walks the registry by index and reads
  each slot when it reaches it.
\<close>

definition broadcast_slot :: "nat \<Rightarrow> 'v world \<Rightarrow> nat \<Rightarrow> 'v world" where
  "broadcast_slot pid w i =
     (let p = w_providers w ! pid
      in if i < length (p_subscriptions p)
         then (case p_subscriptions p ! i of
                 None \<Rightarrow> w
               | Some (cb, sub) \<Rightarrow> deliver w (cb, p_value p, Some (disposer sub)))
         else w)"

definition setValue :: "nat \<Rightarrow> 'v option \<Rightarrow> 'v world \<Rightarrow> 'v world" where
  "setValue pid v w =
     (if pid < length (w_providers w)
      then foldl (broadcast_slot pid)
             (w\<lparr> w_providers := (w_providers w)[pid := (w_providers w ! pid)\<lparr> p_value := v \<rparr>] \<rparr>)
             [0 ..< length (p_subscriptions (w_providers w ! pid))]
      else w)"

text \<open>
  A call on a consumer instance of the world: the instance's method runs, then its
  effects are carried out in order; a dispatched request event bubbles through the
  document.
\<close>

fun carry_out :: "callback \<Rightarrow> 'v world \<Rightarrow> 'v effect \<Rightarrow> 'v world" where
  "carry_out cb w (Dispatch e ev) = dispatch_request e ev w"
| "carry_out cb w (Unsubscribe h) = perform cb w (Unsubscribe h)"
| "carry_out cb w (Callback v u) = perform cb w (Callback v u)"

definition consumer_call :: "nat \<Rightarrow> 'v call \<Rightarrow> 'v world \<Rightarrow> 'v world" where
  "consumer_call cid x w =
     (if cid < length (w_consumers w)
      then (let (c1, es) = step (w_consumers w ! cid) x
            in foldl (carry_out cid) (w\<lparr> w_consumers := (w_consumers w)[cid := c1] \<rparr>) es)
      else w)"

text \<open>
  A provider, by its index, that answers a request event on a given path: the negation of
  the guard of \<^verbatim>\<open>onContextRequest\<close>.
\<close>

definition claims :: "'v world \<Rightarrow> path \<Rightarrow> request_event \<Rightarrow> nat \<Rightarrow> bool" where
  "claims w pth ev pid =
     (pid < length (w_providers w)
      \<and> ev_context ev = p_context (w_providers w ! pid)
      \<and> Some (fst pth) \<noteq> p_host (w_providers w ! pid))"

text \<open>A handle that is the handle of a current entry in the registry of its provider.\<close>

definition subscribed_with :: "handle \<Rightarrow> 'v world \<Rightarrow> bool" where
  "subscribed_with h w =
     (of_provider h < length (w_providers w)
      \<and> h \<in> set (map (\<lambda>kv. disposer (snd kv))
                   (live (p_subscriptions (w_providers w ! of_provider h)))))"

text \<open>
  Two worlds with the same document and listeners, as many providers and consumers, and
  the same host, context, value and identity in every provider.
\<close>

definition same_frame :: "'v world \<Rightarrow> 'v world \<Rightarrow> bool" where
  "same_frame w w' =
     (w_dom w' = w_dom w \<and> w_listeners w' = w_listeners w
      \<and> length (w_providers w') = length (w_providers w)
      \<and> length (w_consumers w') = length (w_consumers w)
      \<and> (\<forall>i. p_host (w_providers w' ! i) = p_host (w_providers w ! i)
              \<and> p_context (w_providers w' ! i) = p_context (w_providers w ! i)
              \<and> p_value (w_providers w' ! i) = p_value (w_providers w ! i)
              \<and> p_id (w_providers w' ! i) = p_id (w_providers w ! i)))"

section \<open>Registries and what a consumer observed\<close>

text \<open>
  One step of the broadcast of \<^verbatim>\<open>setValue\<close> seen from the registry: the callback of an
  entry is called with the new value and the handle of that entry.
\<close>

definition notify :: "'v option \<Rightarrow> 'v world \<Rightarrow> callback \<times> subscription \<Rightarrow> 'v world" where
  "notify v w kv = deliver w (fst kv, v, Some (disposer (snd kv)))"

text \<open>
  A registry entry and the consumer behind its callback agree: the consumer asked to
  subscribe and the handle it holds is the one of the entry. A registry is sound when its
  keys are distinct, as the keys of a \<^verbatim>\<open>Map\<close> are, and every entry agrees with its
  consumer. A registry filled through \<^verbatim>\<open>onContextRequest\<close> is sound: \<^verbatim>\<open>addCallback\<close>
  retains a callback only for a subscribing request, and \<^verbatim>\<open>_callback\<close> stores the handle
  it is passed.
\<close>

definition holds_entry :: "'v world \<Rightarrow> callback \<times> subscription \<Rightarrow> bool" where
  "holds_entry w kv =
     (fst kv < length (w_consumers w) \<longrightarrow>
        c_subscribe (w_consumers w ! fst kv)
        \<and> c_unsubscribe (w_consumers w ! fst kv) = Some (disposer (snd kv)))"

definition registry_sound :: "'v world \<Rightarrow> nat \<Rightarrow> bool" where
  "registry_sound w pid =
     (distinct (map fst (live (p_subscriptions (w_providers w ! pid))))
      \<and> list_all (holds_entry w) (live (p_subscriptions (w_providers w ! pid))))"

text \<open>
  What the element behind a consumer observed: the values its user-supplied callback was
  called with, in order (the callback of the test writes each one to \<^verbatim>\<open>this.value\<close> of the
  element), and the calls of \<^verbatim>\<open>_callback\<close> made by providers.
\<close>

definition values_written :: "callback \<Rightarrow> 'v world \<Rightarrow> 'v option list" where
  "values_written cb w = map (\<lambda>d. fst (snd d)) (filter (\<lambda>d. fst d = cb) (w_calls w))"

definition deliveries_to :: "callback \<Rightarrow> 'v world \<Rightarrow> 'v delivery list" where
  "deliveries_to cb w = filter (\<lambda>d. fst d = cb) (w_deliveries w)"

text \<open>
  The providers that answer a request event dispatched at an element: walking the event
  path from the originating element outwards, those listening on the first element where
  some listening provider answers.
\<close>

fun first_claimers :: "'v world \<Rightarrow> path \<Rightarrow> request_event \<Rightarrow> element list \<Rightarrow> nat list" where
  "first_claimers w pth ev [] = []"
| "first_claimers w pth ev (e # es) =
     (case filter (claims w pth ev) (listeners_at ContextRequest e w) of
        [] \<Rightarrow> first_claimers w pth ev es
      | p # ps \<Rightarrow> p # ps)"

definition nearest_answer :: "'v world \<Rightarrow> element \<Rightarrow> request_event \<Rightarrow> nat list" where
  "nearest_answer w h ev =
     first_claimers w (composedPath w h) ev (fst (composedPath w h) # snd (composedPath w h))"

section \<open>Scenarios\<close>

text \<open>
  A provider on element 1 holding 1000, a subscribing consumer for element 2 and a
  one-shot consumer for element 3, both elements children of element 1: before anything
  is connected, and after the provider and then both consumers were bound.
\<close>

definition scenario_start :: "int world" where
  "scenario_start =
     \<lparr> w_dom = [Element 0 [Element 1 [Element 2 [], Element 3 []]]],
       w_providers = [new_provider 0 (Some 1) 7 (Some 1000)],
       w_consumers = [new_consumer 0 7 True (Some True), new_consumer 1 7 True None],
       w_listeners = [], w_calls = [], w_deliveries = [] \<rparr>"

text \<open>
  The same scenario once the provider is connected (both its listeners are on element 1)
  and before any consumer is bound.
\<close>

definition scenario_bound :: "int world" where
  "scenario_bound =
     \<lparr> w_dom = [Element 0 [Element 1 [Element 2 [], Element 3 []]]],
       w_providers = [new_provider 0 (Some 1) 7 (Some 1000)],
       w_consumers = [new_consumer 0 7 True (Some True), new_consumer 1 7 True None],
       w_listeners = [(1, ContextRequest, 0), (1, ContextProvider, 0)],
       w_calls = [], w_deliveries = [] \<rparr>"

definition scenario_mounted :: "int world option" where
  "scenario_mounted =
     map_option (\<lambda>w. consumer_call 1 (Bind 3) (consumer_call 0 (Bind 2) w))
       (provider_bind 0 0 scenario_start)"

text \<open>
  The mounted scenario with the provider's current value and the two logs left open.
\<close>

definition scenario :: "int option \<Rightarrow> int delivery list \<Rightarrow> int delivery list \<Rightarrow> int world" where
  "scenario x calls dels =
     \<lparr> w_dom = [Element 0 [Element 1 [Element 2 [], Element 3 []]]],
       w_providers =
         [\<lparr> p_host = Some 1, p_context = 7, p_value = x,
            p_subscriptions = [Some (0, \<lparr> consumerHost = 2, disposer = Disposer 0 0 0 \<rparr>)],
            p_serial = 1, p_id = 0 \<rparr>],
       w_consumers =
         [\<lparr> c_host = Some 2, c_context = 7, c_callback = True, c_subscribe = True,
            c_provided = True, c_value = x, c_unsubscribe = Some (Disposer 0 0 0), c_self = 0 \<rparr>,
          \<lparr> c_host = Some 3, c_context = 7, c_callback = True, c_subscribe = False,
            c_provided = True, c_value = Some 1000, c_unsubscribe = None, c_self = 1 \<rparr>],
       w_listeners = [(1, ContextRequest, 0), (1, ContextProvider, 0)],
       w_calls = calls, w_deliveries = dels \<rparr>"

text \<open>
  Two nested providers of one context, on elements 1 (holding 10) and 2 (holding 20),
  both connected, and a subscribing consumer bound to element 3 inside both.
\<close>

definition nested_world :: "int world" where
  "nested_world =
     \<lparr> w_dom = [Element 0 [Element 1 [Element 2 [Element 3 []]]]],
       w_providers = [new_provider 0 (Some 1) 7 (Some 10), new_provider 1 (Some 2) 7 (Some 20)],
       w_consumers = [(new_consumer 0 7 True (Some True)) \<lparr> c_host := Some 3 \<rparr>],
       w_listeners = [(1, ContextRequest, 0), (1, ContextProvider, 0),
                      (2, ContextRequest, 1), (2, ContextProvider, 1)],
       w_calls = [], w_deliveries = [] \<rparr>"

text \<open>
  The same document with nothing connected yet: the outer provider is connected first,
  then the consumer is bound, and the inner provider is connected last.
\<close>

definition late_start :: "int world" where
  "late_start =
     \<lparr> w_dom = [Element 0 [Element 1 [Element 2 [Element 3 []]]]],
       w_providers = [new_provider 0 (Some 1) 7 (Some 10), new_provider 1 (Some 2) 7 (Some 20)],
       w_consumers = [new_consumer 0 7 True (Some True)],
       w_listeners = [], w_calls = [], w_deliveries = [] \<rparr>"

definition late_outer_first :: "int world option" where
  "late_outer_first = map_option (consumer_call 0 (Bind 3)) (provider_bind 0 0 late_start)"

section \<open>Facts about the consumer\<close>

lemma cleanup_frame:
  "c_self (fst (cleanup c u)) = c_self c"
  "c_subscribe (fst (cleanup c u)) = c_subscribe c"
  "c_callback (fst (cleanup c u)) = c_callback c"
  "c_host (fst (cleanup c u)) = c_host c"
  "c_context (fst (cleanup c u)) = c_context c"
  by (simp_all add: cleanup_def Let_def split: option.splits)

lemma cleanup_provided:
  "c_provided (fst (cleanup c u)) = (c_provided c \<and> \<not> is_handoff c u)"
  by (simp add: cleanup_def is_handoff_def Let_def split: option.splits)

lemma cleanup_effects:
  "snd (cleanup c u) =
     (case c_unsubscribe c of
        None \<Rightarrow> []
      | Some h \<Rightarrow> (if Some h \<noteq> u then [Unsubscribe h] else [])
                  @ (if \<not> c_subscribe c then [Unsubscribe h] else []))"
  by (simp add: cleanup_def Let_def split: option.splits)

lemma callback_frame:
  "c_self (fst (consumer_callback c v u)) = c_self c"
  "c_subscribe (fst (consumer_callback c v u)) = c_subscribe c"
  "c_callback (fst (consumer_callback c v u)) = c_callback c"
  "c_host (fst (consumer_callback c v u)) = c_host c"
  "c_context (fst (consumer_callback c v u)) = c_context c"
  by (simp_all add: consumer_callback_def cleanup_def Let_def split: option.splits prod.splits)

lemma callback_state:
  "c_value (fst (consumer_callback c v u)) = v"
  "c_unsubscribe (fst (consumer_callback c v u)) = u"
  "c_provided (fst (consumer_callback c v u))"
  by (simp_all add: consumer_callback_def cleanup_def Let_def split: option.splits prod.splits)

lemma callback_effects:
  "snd (consumer_callback c v u) =
     snd (cleanup c u)
     @ (if (\<not> c_provided c \<or> is_handoff c u \<or> c_subscribe c) \<and> c_callback c
        then [Callback v u] else [])"
  by (auto simp add: consumer_callback_def cleanup_def is_handoff_def Let_def
           split: option.splits prod.splits)

lemma cleanup_no_callback: "filter is_Callback (snd (cleanup c u)) = []"
  by (simp add: cleanup_effects split: option.splits)

lemma cleanup_no_dispatch: "dispatched (snd (cleanup c u)) = []"
  by (simp add: cleanup_effects split: option.splits)

lemma cleanup_unsubscribed:
  "unsubscribed (snd (cleanup c u)) =
     (case c_unsubscribe c of
        None \<Rightarrow> []
      | Some h \<Rightarrow> (if Some h \<noteq> u then [h] else []) @ (if \<not> c_subscribe c then [h] else []))"
  by (simp add: cleanup_effects split: option.splits)

lemma unsubscribed_append: "unsubscribed (xs @ ys) = unsubscribed xs @ unsubscribed ys"
  by (induction xs rule: unsubscribed.induct) simp_all

lemma dispatched_append: "dispatched (xs @ ys) = dispatched xs @ dispatched ys"
  by (induction xs rule: dispatched.induct) simp_all

lemma callback_unsubscribed:
  "unsubscribed (snd (consumer_callback c v u)) = unsubscribed (snd (cleanup c u))"
  by (simp add: callback_effects unsubscribed_append)

lemma callback_no_dispatch: "dispatched (snd (consumer_callback c v u)) = []"
  by (simp add: callback_effects dispatched_append cleanup_no_dispatch)

lemma callback_user_calls:
  "filter is_Callback (snd (consumer_callback c v u)) =
     (if (\<not> c_provided c \<or> is_handoff c u \<or> c_subscribe c) \<and> c_callback c
      then [Callback v u] else [])"
  by (simp add: callback_effects cleanup_no_callback)

lemma step_frame:
  "c_self (fst (step c x)) = c_self c"
  "c_subscribe (fst (step c x)) = c_subscribe c"
  "c_callback (fst (step c x)) = c_callback c"
  "c_context (fst (step c x)) = c_context c"
  by (cases x; simp add: bind_def unbind_def hostConnected_def hostDisconnected_def
        callback_frame split: option.splits)+

lemma step_provided: "c_provided (fst (step c x)) = (c_provided c \<or> is_Deliver x)"
  by (cases x) (simp_all add: bind_def unbind_def hostConnected_def hostDisconnected_def
        callback_state split: option.splits)

lemma step_dispatched:
  "(e, ev) \<in> set (dispatched (snd (step c x))) \<Longrightarrow>
     ev_callback ev = c_self c \<and> ev_context ev = c_context c \<and> ev_subscribe ev = c_subscribe c"
  by (cases x) (auto simp add: bind_def unbind_def hostConnected_def hostDisconnected_def
        dispatchRequest_def callback_no_dispatch split: option.splits)

lemma step_user_calls:
  "\<not> c_subscribe c \<Longrightarrow>
     length (filter is_Callback (snd (step c x)))
       \<le> (if c_provided c then 0 else 1)
          + (case x of Deliver v u \<Rightarrow> (if is_handoff c u then 1 else 0) | _ \<Rightarrow> 0)"
  by (cases x) (simp_all add: bind_def unbind_def hostConnected_def hostDisconnected_def
        dispatchRequest_def callback_user_calls split: option.splits)

lemma run_Cons_fst: "fst (run c (x # xs)) = fst (run (fst (step c x)) xs)"
  by (simp split: prod.splits)

lemma run_Cons_snd: "snd (run c (x # xs)) = snd (step c x) @ snd (run (fst (step c x)) xs)"
  by (simp split: prod.splits)

lemma run_self: "c_self (fst (run c xs)) = c_self c"
  by (induction xs arbitrary: c) (simp_all add: run_Cons_fst step_frame del: run.simps(2))

lemma run_subscribe: "c_subscribe (fst (run c xs)) = c_subscribe c"
  by (induction xs arbitrary: c) (simp_all add: run_Cons_fst step_frame del: run.simps(2))

lemma run_callback: "c_callback (fst (run c xs)) = c_callback c"
  by (induction xs arbitrary: c) (simp_all add: run_Cons_fst step_frame del: run.simps(2))

lemma run_context: "c_context (fst (run c xs)) = c_context c"
  by (induction xs arbitrary: c) (simp_all add: run_Cons_fst step_frame del: run.simps(2))

lemma run_provided: "c_provided (fst (run c xs)) = (c_provided c \<or> list_ex is_Deliver xs)"
  by (induction xs arbitrary: c) (auto simp add: run_Cons_fst step_provided simp del: run.simps(2))

lemma run_dispatched:
  "(e, ev) \<in> set (dispatched (snd (run c xs))) \<Longrightarrow>
     ev_callback ev = c_self c \<and> ev_context ev = c_context c \<and> ev_subscribe ev = c_subscribe c"
proof (induction xs arbitrary: c)
  case Nil
  then show ?case by simp
next
  case (Cons x xs)
  from Cons.prems have "(e, ev) \<in> set (dispatched (snd (step c x)))
      \<or> (e, ev) \<in> set (dispatched (snd (run (fst (step c x)) xs)))"
    by (simp add: run_Cons_snd dispatched_append del: run.simps(2))
  then show ?case
  proof
    assume "(e, ev) \<in> set (dispatched (snd (step c x)))"
    then show ?thesis by (rule step_dispatched)
  next
    assume "(e, ev) \<in> set (dispatched (snd (run (fst (step c x)) xs)))"
    then have "ev_callback ev = c_self (fst (step c x)) \<and> ev_context ev = c_context (fst (step c x))
        \<and> ev_subscribe ev = c_subscribe (fst (step c x))"
      by (rule Cons.IH)
    then show ?thesis by (simp add: step_frame)
  qed
qed

lemma step_quiet:
  "\<not> is_Deliver x \<Longrightarrow> filter is_Callback (snd (step c x)) = []"
  "\<not> is_Deliver x \<Longrightarrow> c_provided (fst (step c x)) = c_provided c"
  by (cases x; simp add: bind_def unbind_def hostConnected_def hostDisconnected_def
        dispatchRequest_def split: option.splits)+

lemma handoffs_Cons:
  "handoffs c (x # xs) =
     (case x of Deliver v u \<Rightarrow> (if is_handoff c u then 1 else 0) | _ \<Rightarrow> 0)
     + handoffs (fst (step c x)) xs"
  by (cases x) simp_all

lemma run_user_calls:
  "\<not> c_subscribe c \<Longrightarrow>
     length (filter is_Callback (snd (run c xs)))
       \<le> (if c_provided c then 0 else 1) + handoffs c xs"
proof (induction xs arbitrary: c)
  case Nil
  then show ?case by simp
next
  case (Cons x xs)
  let ?c1 = "fst (step c x)"
  have sub: "\<not> c_subscribe ?c1" using Cons.prems by (simp add: step_frame)
  have ih: "length (filter is_Callback (snd (run ?c1 xs)))
              \<le> (if c_provided ?c1 then 0 else 1) + handoffs ?c1 xs"
    using sub by (rule Cons.IH)
  have st: "length (filter is_Callback (snd (step c x)))
       \<le> (if c_provided c then 0 else 1)
          + (case x of Deliver v u \<Rightarrow> (if is_handoff c u then 1 else 0) | _ \<Rightarrow> 0)"
    using Cons.prems by (rule step_user_calls)
  have len: "length (filter is_Callback (snd (run c (x # xs))))
      = length (filter is_Callback (snd (step c x))) + length (filter is_Callback (snd (run ?c1 xs)))"
    by (simp add: run_Cons_snd del: run.simps(2))
  show ?case
  proof (cases "is_Deliver x")
    case True
    then have "c_provided ?c1" by (simp add: step_provided)
    with ih have "length (filter is_Callback (snd (run ?c1 xs))) \<le> handoffs ?c1 xs" by simp
    with st len show ?thesis by (simp only: handoffs_Cons)
  next
    case False
    then have q: "length (filter is_Callback (snd (step c x))) = 0" "c_provided ?c1 = c_provided c"
      by (simp_all add: step_quiet)
    have "handoffs ?c1 xs \<le> handoffs c (x # xs)" by (simp only: handoffs_Cons)
    with ih q len show ?thesis by (simp only:)
  qed
qed

text \<open>
  C3: a consumer that did not request subscribe is said to invoke the newly received
  unsubscribe handle immediately on every delivery, the first and hand-offs included, so
  that it holds no live subscription past the delivery. The code does not: the call under
  \<^verbatim>\<open>if (!this.subscribe)\<close> is a call of the stored handle \<^verbatim>\<open>this.unsubscribe\<close> and sits inside
  \<^verbatim>\<open>if (this.unsubscribe)\<close>. A one-shot consumer that receives a handle it does not already
  hold never invokes that handle: it invokes nothing when it holds none, the held handle
  twice when it holds another, and in both cases leaves the received handle stored.
\<close>

theorem C3_received_handle_not_invoked:
  "\<not> c_subscribe c \<Longrightarrow> c_unsubscribe c \<noteq> Some h \<Longrightarrow>
     h \<notin> set (unsubscribed (snd (consumer_callback c v (Some h))))
     \<and> unsubscribed (snd (consumer_callback c v (Some h)))
         = (case c_unsubscribe c of None \<Rightarrow> [] | Some held \<Rightarrow> [held, held])
     \<and> c_unsubscribe (fst (consumer_callback c v (Some h))) = Some h"
  by (auto simp add: callback_unsubscribed cleanup_unsubscribed callback_state
        split: option.splits)

theorem C3_received_handle_not_invoked_witness:
  "unsubscribed (snd (consumer_callback (new_consumer 0 0 True (Some False) :: int consumer)
       (Some 1000) (Some (Disposer 0 0 0)))) = []
   \<and> c_unsubscribe (fst (consumer_callback (new_consumer 0 0 True (Some False) :: int consumer)
       (Some 1000) (Some (Disposer 0 0 0)))) = Some (Disposer 0 0 0)
   \<and> unsubscribed (snd (consumer_callback
        (new_consumer 0 0 True (Some False) \<lparr> c_unsubscribe := Some (Disposer 0 0 0) \<rparr> :: int consumer)
        (Some 2) (Some (Disposer 1 0 0)))) = [Disposer 0 0 0, Disposer 0 0 0]
   \<and> c_unsubscribe (fst (consumer_callback
        (new_consumer 0 0 True (Some False) \<lparr> c_unsubscribe := Some (Disposer 0 0 0) \<rparr> :: int consumer)
        (Some 2) (Some (Disposer 1 0 0)))) = Some (Disposer 1 0 0)"
  using C3_received_handle_not_invoked
      [of "new_consumer 0 0 True (Some False) :: int consumer" "Disposer 0 0 0" "Some 1000"]
    C3_received_handle_not_invoked
      [of "new_consumer 0 0 True (Some False) \<lparr> c_unsubscribe := Some (Disposer 0 0 0) \<rparr> :: int consumer"
          "Disposer 1 0 0" "Some 2"]
  by (simp add: new_consumer_def)

text \<open>
  C6 (as stated): the user-supplied callback is invoked if and only if the delivery is the
  first ever to this consumer or the consumer requested subscribe. On the code a one-shot
  consumer that has been provided and holds a handle is called back again when a delivery
  brings a different handle.
\<close>

theorem C6_handoff_counterexample:
  "list_ex is_Deliver [Bind 1, Deliver (Some (1::int)) (Some (Disposer 0 0 0))]
   \<and> \<not> c_subscribe (fst (run (new_consumer 0 0 True (Some False))
          [Bind 1, Deliver (Some (1::int)) (Some (Disposer 0 0 0))]))
   \<and> filter is_Callback (snd (consumer_callback
        (fst (run (new_consumer 0 0 True (Some False))
          [Bind 1, Deliver (Some (1::int)) (Some (Disposer 0 0 0))]))
        (Some 2) (Some (Disposer 1 0 0))))
     = [Callback (Some 2) (Some (Disposer 1 0 0))]"
  by (simp add: consumer_callback_def cleanup_def new_consumer_def bind_def hostConnected_def
        dispatchRequest_def)

text \<open>
  C6 (amended): for a consumer constructed with a user callback, after any earlier calls,
  a delivery invokes the user callback (once, with the delivered value and handle) if and
  only if no delivery came before, or the consumer requested subscribe, or the delivery is
  a hand-off (a handle is held and the received one differs from it); otherwise the user
  callback is not invoked. The stored value is the delivered one after every delivery.
\<close>

theorem C6_user_callback_iff:
  "filter is_Callback
     (snd (consumer_callback
        (fst (run (new_consumer self ctx True sub :: 'v consumer) calls)) v u))
   = (if \<not> list_ex is_Deliver calls
         \<or> c_subscribe (new_consumer self ctx True sub :: 'v consumer)
         \<or> is_handoff (fst (run (new_consumer self ctx True sub) calls)) u
      then [Callback v u] else [])
   \<and> c_value (fst (consumer_callback (fst (run (new_consumer self ctx True sub) calls)) v u)) = v"
proof -
  have "c_provided (fst (run (new_consumer self ctx True sub :: 'v consumer) calls))
        = list_ex is_Deliver calls"
    by (simp add: run_provided new_consumer_def)
  moreover have "c_callback (fst (run (new_consumer self ctx True sub :: 'v consumer) calls))"
    by (simp add: run_callback new_consumer_def)
  ultimately show ?thesis
    by (auto simp add: callback_user_calls callback_state run_subscribe)
qed

theorem C6_user_callback_iff_witness:
  "filter is_Callback
     (snd (consumer_callback
        (fst (run (new_consumer 0 0 True None :: int consumer)
           [Bind 1, Deliver (Some 1) (Some (Disposer 0 0 0))]))
        (Some 2) (Some (Disposer 0 0 0)))) = []
   \<and> c_value (fst (consumer_callback
        (fst (run (new_consumer 0 0 True None :: int consumer)
           [Bind 1, Deliver (Some 1) (Some (Disposer 0 0 0))]))
        (Some 2) (Some (Disposer 0 0 0)))) = Some 2
   \<and> filter is_Callback
     (snd (consumer_callback
        (fst (run (new_consumer 0 0 True None :: int consumer) [Bind 1]))
        (Some 1) (Some (Disposer 0 0 0)))) = [Callback (Some 1) (Some (Disposer 0 0 0))]"
  using C6_user_callback_iff [where self = 0 and ctx = 0 and sub = None
      and calls = "[Bind 1, Deliver (Some (1::int)) (Some (Disposer 0 0 0))]"
      and v = "Some 2" and u = "Some (Disposer 0 0 0)"]
    C6_user_callback_iff [where self = 0 and ctx = 0 and sub = None
      and calls = "[Bind 1] :: int call list"
      and v = "Some 1" and u = "Some (Disposer 0 0 0)"]
  by (simp add: new_consumer_def bind_def hostConnected_def dispatchRequest_def
        consumer_callback_def cleanup_def is_handoff_def)

text \<open>
  C8: every request event dispatched by one consumer instance, over any sequence of
  calls on it, carries the instance's own callback reference, which no call changes.
\<close>

theorem C8_stable_callback_identity:
  "c_self (fst (run c calls)) = c_self c
   \<and> (\<forall>d \<in> set (dispatched (snd (run c calls))). ev_callback (snd d) = c_self c)"
  using run_dispatched [of _ _ c calls] by (auto simp add: run_self)

theorem C8_stable_callback_identity_witness:
  "map (ev_callback \<circ> snd) (dispatched (snd (run (new_consumer 4 0 True (Some True))
       [Bind 1, Deliver (Some (1::int)) (Some (Disposer 0 4 0)), Unbind, Bind 2, HostConnected])))
   = [4, 4, 4]
   \<and> c_self (fst (run (new_consumer 4 0 True (Some True))
       [Bind 1, Deliver (Some (1::int)) (Some (Disposer 0 4 0)), Unbind, Bind 2, HostConnected]))
     = 4"
  using C8_stable_callback_identity [of "new_consumer 4 0 True (Some True) :: int consumer"
      "[Bind 1, Deliver (Some (1::int)) (Some (Disposer 0 4 0)), Unbind, Bind 2, HostConnected]"]
  by (simp add: new_consumer_def bind_def unbind_def hostConnected_def hostDisconnected_def
        dispatchRequest_def consumer_callback_def cleanup_def)

text \<open>
  C9 (as stated): for a consumer that did not request subscribe the user callback is
  invoked at most once over the whole life of the instance. On the code two deliveries
  with different handles both reach the user callback.
\<close>

theorem C9_second_call_counterexample:
  "filter is_Callback (snd (run (new_consumer 0 0 True (Some False))
      [Bind 1, Deliver (Some (1::int)) (Some (Disposer 0 0 0)),
       Deliver (Some 2) (Some (Disposer 1 0 0))]))
   = [Callback (Some 1) (Some (Disposer 0 0 0)), Callback (Some 2) (Some (Disposer 1 0 0))]"
  by (simp add: consumer_callback_def cleanup_def new_consumer_def bind_def hostConnected_def
        dispatchRequest_def)

text \<open>
  C9 (amended): inside a delivery the provided flag is cleared exactly when it was set and
  the delivery is a hand-off; connecting, disconnecting, binding and unbinding leave it as
  it is. So for a consumer that did not request subscribe, over any sequence of calls, the
  user callback is invoked at most once more than the number of hand-off deliveries (and
  not even that once if the consumer was provided before). Every delivery stores the
  delivered value.
\<close>

theorem C9_provided_flag:
  "c_provided (fst (cleanup c u)) = (c_provided c \<and> \<not> is_handoff c u)
   \<and> c_provided (fst (hostDisconnected c)) = c_provided c
   \<and> c_provided (fst (hostConnected c)) = c_provided c
   \<and> c_provided (fst (unbind c)) = c_provided c
   \<and> c_provided (fst (bind e c)) = c_provided c
   \<and> (\<not> c_subscribe c \<longrightarrow>
        length (filter is_Callback (snd (run c calls)))
          \<le> (if c_provided c then 0 else 1) + handoffs c calls)
   \<and> c_value (fst (consumer_callback c v u)) = v"
  by (simp add: cleanup_provided run_user_calls callback_state hostDisconnected_def
        hostConnected_def unbind_def bind_def split: option.splits)

theorem C9_provided_flag_witness:
  "\<not> c_subscribe (new_consumer 0 0 True None :: int consumer)
   \<and> handoffs (new_consumer 0 0 True None :: int consumer)
       [Bind 1, Deliver (Some 1) (Some (Disposer 0 0 0)), Unbind, Bind 1,
        Deliver (Some 2) (Some (Disposer 1 0 0))] = 0
   \<and> length (filter is_Callback (snd (run (new_consumer 0 0 True None :: int consumer)
       [Bind 1, Deliver (Some 1) (Some (Disposer 0 0 0)), Unbind, Bind 1,
        Deliver (Some 2) (Some (Disposer 1 0 0))]))) \<le> 1
   \<and> c_value (fst (run (new_consumer 0 0 True None :: int consumer)
       [Bind 1, Deliver (Some 1) (Some (Disposer 0 0 0)), Unbind, Bind 1,
        Deliver (Some 2) (Some (Disposer 1 0 0))])) = Some 2"
  using C9_provided_flag [where c = "new_consumer 0 0 True None :: int consumer" and calls =
      "[Bind 1, Deliver (Some 1) (Some (Disposer 0 0 0)), Unbind, Bind 1,
        Deliver (Some 2) (Some (Disposer 1 0 0))]"]
  by (simp add: new_consumer_def bind_def unbind_def hostConnected_def hostDisconnected_def
        dispatchRequest_def consumer_callback_def cleanup_def is_handoff_def)

section \<open>Facts about the registry\<close>

lemma live_append: "live (xs @ ys) = live xs @ live ys"
  by (induction xs rule: live.induct) simp_all

lemma live_map_delete: "live (map_delete k m) = filter (\<lambda>kv. fst kv \<noteq> k) (live m)"
  by (induction m rule: live.induct) (auto simp add: map_delete_def)

lemma length_map_delete: "length (map_delete k m) = length m"
  by (simp add: map_delete_def)

lemma drop_map_delete: "drop i (map_delete k m) = map_delete k (drop i m)"
  by (simp add: map_delete_def drop_map)

lemma map_has_delete: "\<not> map_has k (map_delete k m)"
  by (auto simp add: map_has_def live_map_delete)

lemma map_set_fresh: "\<not> map_has k m \<Longrightarrow> map_set k v m = m @ [Some (k, v)]"
  by (simp add: map_set_def)


lemma keys_update:
  "map fst (live (map (\<lambda>slot. case slot of None \<Rightarrow> None
        | Some (k', v') \<Rightarrow> if k' = k then Some (k', v) else Some (k', v')) m))
   = map fst (live m)"
  by (induction m rule: live.induct) (auto split: prod.splits)

lemma map_has_set: "map_has k (map_set k v m)"
proof (cases "map_has k m")
  case True
  then show ?thesis unfolding map_set_def map_has_def by (simp only: if_True keys_update)
next
  case False
  then show ?thesis by (simp add: map_set_fresh map_has_def live_append)
qed

lemma length_live: "length (live m) \<le> length m"
  by (induction m rule: live.induct) simp_all

lemma live_drop_Suc:
  "i < length m \<Longrightarrow>
     live (drop i m) = (case m ! i of None \<Rightarrow> [] | Some kv \<Rightarrow> [kv]) @ live (drop (Suc i) m)"
  by (simp add: Cons_nth_drop_Suc [symmetric] split: option.splits)


section \<open>Facts about the re-parenting pass\<close>

lemma reparent_safe:
  "reparent fuel D subs ctx i seen s = Some (s', evs) \<Longrightarrow>
     distinct (map (\<lambda>d. ev_callback (snd d)) evs)
     \<and> (\<forall>d \<in> set evs. ev_callback (snd d) \<notin> seen \<and> ev_subscribe (snd d)
            \<and> ev_context (snd d) = ctx)"
proof (induction fuel arbitrary: i seen s s' evs)
  case 0
  then show ?case by (simp split: if_splits)
next
  case (Suc n)
  show ?case
  proof (cases "i < length (subs s)")
    case False
    with Suc.prems show ?thesis by simp
  next
    case inside: True
    show ?thesis
    proof (cases "subs s ! i")
      case None
      with Suc.prems inside have "reparent n D subs ctx (Suc i) seen s = Some (s', evs)" by simp
      then show ?thesis by (rule Suc.IH)
    next
      case (Some kv)
      obtain cb sub where kv: "kv = (cb, sub)" by (cases kv)
      show ?thesis
      proof (cases "cb \<in> seen")
        case True
        with Suc.prems inside Some kv
        have "reparent n D subs ctx (Suc i) seen s = Some (s', evs)" by simp
        then show ?thesis by (rule Suc.IH)
      next
        case False
        let ?ev = "\<lparr> ev_context = ctx, ev_callback = cb, ev_subscribe = True \<rparr>"
        from Suc.prems inside Some kv False
        obtain evs' where rec: "reparent n D subs ctx (Suc i) (insert cb seen)
              (D (consumerHost sub) ?ev s) = Some (s', evs')"
          and evs: "evs = (consumerHost sub, ?ev) # evs'"
          by (auto simp add: Let_def)
        note ih = Suc.IH [OF rec]
        from ih have d: "distinct (map (\<lambda>d. ev_callback (snd d)) evs')"
          by (rule conjunct1)
        from ih have a: "\<forall>d \<in> set evs'. ev_callback (snd d) \<notin> insert cb seen \<and> ev_subscribe (snd d)
                    \<and> ev_context (snd d) = ctx"
          by (rule conjunct2)
        from a have "cb \<notin> set (map (\<lambda>d. ev_callback (snd d)) evs')" by auto
        with d a False evs show ?thesis by auto
      qed
    qed
  qed
qed

lemma filter_live_delete:
  assumes "\<And>kv. P kv \<Longrightarrow> fst kv \<noteq> k"
  shows "filter P (live (drop j (map_delete k m))) = filter P (live (drop j m))"
proof -
  have "filter P (filter (\<lambda>kv. fst kv \<noteq> k) xs) = filter P xs" for xs
    using assms by (induction xs) auto
  then show ?thesis by (simp only: drop_map_delete live_map_delete)
qed

lemma filter_live_readd:
  assumes "\<And>kv. P kv \<Longrightarrow> fst kv \<noteq> k" and "j \<le> length m"
  shows "filter P (live (drop j (map_delete k m @ [Some (k, v)]))) = filter P (live (drop j m))"
proof -
  have "drop j (map_delete k m @ [Some (k, v)]) = drop j (map_delete k m) @ [Some (k, v)]"
    using assms(2) by (simp add: length_map_delete)
  moreover have "filter P [(k, v)] = []" using assms(1) [of "(k, v)"] by auto
  ultimately show ?thesis
    by (simp only: live_append filter_append filter_live_delete [of P, OF assms(1)])
       simp
qed

lemma own_entry_rest:
  assumes "m1 = m \<or> m1 = map_delete cb m \<or> (\<exists>v. m1 = map_set cb v (map_delete cb m))"
    and "j \<le> length m"
  shows "filter (\<lambda>kv. fst kv \<notin> insert cb seen) (live (drop j m1))
           = filter (\<lambda>kv. fst kv \<notin> insert cb seen) (live (drop j m))"
proof -
  have P: "\<And>kv. fst kv \<notin> insert cb seen \<Longrightarrow> fst kv \<noteq> cb" by simp
  have app: "\<And>v. map_set cb v (map_delete cb m) = map_delete cb m @ [Some (cb, v)]"
    by (simp add: map_set_fresh map_has_delete)
  from assms(1) show ?thesis
  proof (elim disjE exE)
    assume "m1 = m" then show ?thesis by simp
  next
    assume eq: "m1 = map_delete cb m"
    have "filter (\<lambda>kv. fst kv \<notin> insert cb seen) (live (drop j (map_delete cb m)))
           = filter (\<lambda>kv. fst kv \<notin> insert cb seen) (live (drop j m))"
      by (rule filter_live_delete) (rule P)
    then show ?thesis unfolding eq .
  next
    fix v assume "m1 = map_set cb v (map_delete cb m)"
    then have eq: "m1 = map_delete cb m @ [Some (cb, v)]" by (simp only: app)
    have "filter (\<lambda>kv. fst kv \<notin> insert cb seen) (live (drop j (map_delete cb m @ [Some (cb, v)])))
           = filter (\<lambda>kv. fst kv \<notin> insert cb seen) (live (drop j m))"
      using assms(2) by (intro filter_live_readd) simp_all
    then show ?thesis unfolding eq .
  qed
qed

lemma own_entry_length:
  assumes "m1 = m \<or> m1 = map_delete cb m \<or> (\<exists>v. m1 = map_set cb v (map_delete cb m))"
  shows "length m1 \<le> Suc (length m)"
  using assms by (auto simp add: length_map_delete map_set_fresh map_has_delete)

lemma reparent_exact:
  assumes wb: "own_entry_only D subs"
  shows "distinct (map fst (filter (\<lambda>kv. fst kv \<notin> seen) (live (drop i (subs s))))) \<Longrightarrow>
     length (subs s) - i + length (filter (\<lambda>kv. fst kv \<notin> seen) (live (drop i (subs s)))) \<le> fuel \<Longrightarrow>
     \<exists>s'. reparent fuel D subs ctx i seen s
            = Some (s', map (reparent_event ctx)
                          (filter (\<lambda>kv. fst kv \<notin> seen) (live (drop i (subs s)))))"
proof (induction fuel arbitrary: i seen s)
  case 0
  then show ?case by simp
next
  case (Suc n)
  let ?m = "subs s"
  show ?case
  proof (cases "i < length ?m")
    case False
    then show ?thesis by simp
  next
    case inside: True
    note expand = live_drop_Suc [OF inside]
    show ?thesis
    proof (cases "?m ! i")
      case None
      have "\<exists>s'. reparent n D subs ctx (Suc i) seen s
            = Some (s', map (reparent_event ctx)
                          (filter (\<lambda>kv. fst kv \<notin> seen) (live (drop (Suc i) ?m))))"
        using Suc.prems inside None by (intro Suc.IH) (simp_all add: expand)
      with inside None show ?thesis by (simp add: expand)
    next
      case (Some kv)
      obtain cb sub where kv: "kv = (cb, sub)" by (cases kv)
      show ?thesis
      proof (cases "cb \<in> seen")
        case True
        have "\<exists>s'. reparent n D subs ctx (Suc i) seen s
            = Some (s', map (reparent_event ctx)
                          (filter (\<lambda>kv. fst kv \<notin> seen) (live (drop (Suc i) ?m))))"
          using Suc.prems inside Some kv True by (intro Suc.IH) (simp_all add: expand)
        with inside Some kv True show ?thesis by (simp add: expand)
      next
        case False
        let ?T = "filter (\<lambda>kv. fst kv \<notin> seen) (live (drop (Suc i) ?m))"
        let ?ev = "\<lparr> ev_context = ctx, ev_callback = cb, ev_subscribe = True \<rparr>"
        let ?s1 = "D (consumerHost sub) ?ev s"
        have todo: "filter (\<lambda>kv. fst kv \<notin> seen) (live (drop i ?m)) = (cb, sub) # ?T"
          using Some kv False by (simp add: expand)
        with Suc.prems(1) have fresh: "cb \<notin> fst ` set ?T" and dT: "distinct (map fst ?T)"
          by simp_all
        have T': "filter (\<lambda>kv. fst kv \<notin> insert cb seen) (live (drop (Suc i) ?m)) = ?T"
          using fresh by (intro filter_cong) auto
        from wb have "subs ?s1 = ?m \<or> subs ?s1 = map_delete cb ?m
            \<or> (\<exists>v. subs ?s1 = map_set cb v (map_delete cb ?m))"
          unfolding own_entry_only_def
          by (metis request_event.select_convs(2))
        then have rest0: "filter (\<lambda>kv. fst kv \<notin> insert cb seen) (live (drop (Suc i) (subs ?s1)))
              = filter (\<lambda>kv. fst kv \<notin> insert cb seen) (live (drop (Suc i) ?m))"
          and len: "length (subs ?s1) \<le> Suc (length ?m)"
          using inside by (simp_all only: own_entry_rest own_entry_length Suc_leI)
        from rest0 have rest:
          "filter (\<lambda>kv. fst kv \<notin> insert cb seen) (live (drop (Suc i) (subs ?s1))) = ?T"
          by (simp only: T')
        have "length (subs ?s1) - Suc i + length ?T \<le> n"
          using Suc.prems(2) len inside by (simp add: todo)
        with dT rest
        have "\<exists>s'. reparent n D subs ctx (Suc i) (insert cb seen) ?s1
            = Some (s', map (reparent_event ctx)
                 (filter (\<lambda>kv. fst kv \<notin> insert cb seen) (live (drop (Suc i) (subs ?s1)))))"
          by (intro Suc.IH) simp_all
        then have "\<exists>s'. reparent n D subs ctx (Suc i) (insert cb seen) ?s1
            = Some (s', map (reparent_event ctx) ?T)"
          unfolding rest .
        then obtain s' where "reparent n D subs ctx (Suc i) (insert cb seen) ?s1
            = Some (s', map (reparent_event ctx) ?T)"
          by blast
        with inside Some kv False show ?thesis
          by (simp add: todo Let_def reparent_event_def)
      qed
    qed
  qed
qed

text \<open>
  C1: in one handling pass of a provider announcement with the provider's own context,
  from an element other than the provider's host, whatever the dispatches do to the
  registry meanwhile, a pass that ends has stopped the announcement and has dispatched
  request events with subscribe=true and the provider's context, no two for the same
  callback. When each dispatch touches at most the entry of its own callback (which the
  later appearance of that callback under a new entry is a case of), the pass ends and
  the events are exactly one per entry of the registry, from the entry's stored consumer
  host, in the registry's order.
\<close>

theorem C1_reparenting_pass:
  assumes "pe_context ev = this_context" and "Some (fst pth) \<noteq> this_host"
  shows "(\<forall>s' stop evs.
            onProviderRequest fuel D subs this_context this_host pth ev s = Some (s', stop, evs)
            \<longrightarrow> stop \<and> distinct (map (\<lambda>d. ev_callback (snd d)) evs)
                \<and> (\<forall>d \<in> set evs. ev_subscribe (snd d) \<and> ev_context (snd d) = this_context))
       \<and> (own_entry_only D subs \<and> distinct (map fst (live (subs s)))
            \<and> 2 * length (subs s) \<le> fuel
          \<longrightarrow> (\<exists>s'. onProviderRequest fuel D subs this_context this_host pth ev s
                   = Some (s', True, map (reparent_event this_context) (live (subs s)))))"
proof (intro conjI allI impI)
  fix s' stop evs
  assume "onProviderRequest fuel D subs this_context this_host pth ev s = Some (s', stop, evs)"
  with assms have r: "reparent fuel D subs this_context 0 {} s = Some (s', evs)" and "stop"
    by (auto simp add: onProviderRequest_def)
  from reparent_safe [OF r] \<open>stop\<close>
  show "stop" "distinct (map (\<lambda>d. ev_callback (snd d)) evs)"
    "\<forall>d \<in> set evs. ev_subscribe (snd d) \<and> ev_context (snd d) = this_context"
    by simp_all
next
  assume h: "own_entry_only D subs \<and> distinct (map fst (live (subs s)))
            \<and> 2 * length (subs s) \<le> fuel"
  have "length (live (subs s)) \<le> length (subs s)" by (rule length_live)
  with h have "\<exists>s'. reparent fuel D subs this_context 0 {} s
            = Some (s', map (reparent_event this_context)
                 (filter (\<lambda>kv. fst kv \<notin> {}) (live (drop 0 (subs s)))))"
    by (intro reparent_exact) simp_all
  with assms show "\<exists>s'. onProviderRequest fuel D subs this_context this_host pth ev s
                   = Some (s', True, map (reparent_event this_context) (live (subs s)))"
    by (auto simp add: onProviderRequest_def)
qed

theorem C1_reparenting_pass_witness:
  "onProviderRequest (Suc (Suc (Suc (Suc 0))))
     (\<lambda>h ev s. map_set (ev_callback ev) \<lparr> consumerHost = h, disposer = Disposer 9 (ev_callback ev) 1 \<rparr>
                 (map_delete (ev_callback ev) s))
     (\<lambda>s. s) 7 (Some 1) (5, [1]) \<lparr> pe_context = 7 \<rparr>
     [Some (3, \<lparr> consumerHost = 30, disposer = Disposer 9 3 0 \<rparr>),
      Some (4, \<lparr> consumerHost = 40, disposer = Disposer 9 4 0 \<rparr>)]
   = Some ([None, None,
            Some (3, \<lparr> consumerHost = 30, disposer = Disposer 9 3 1 \<rparr>),
            Some (4, \<lparr> consumerHost = 40, disposer = Disposer 9 4 1 \<rparr>)],
           True,
           [(30, \<lparr> ev_context = 7, ev_callback = 3, ev_subscribe = True \<rparr>),
            (40, \<lparr> ev_context = 7, ev_callback = 4, ev_subscribe = True \<rparr>)])"
proof -
  let ?D = "\<lambda>h ev s. map_set (ev_callback ev)
                 \<lparr> consumerHost = h, disposer = Disposer 9 (ev_callback ev) 1 \<rparr>
                 (map_delete (ev_callback ev) s)"
  let ?m = "[Some (3, \<lparr> consumerHost = 30, disposer = Disposer 9 3 0 \<rparr>),
      Some (4, \<lparr> consumerHost = 40, disposer = Disposer 9 4 0 \<rparr>)]"
  have wb: "own_entry_only ?D (\<lambda>s. s)"
    unfolding own_entry_only_def by blast
  have "\<exists>s'. onProviderRequest (Suc (Suc (Suc (Suc 0)))) ?D (\<lambda>s. s) 7 (Some 1) (5, [1])
            \<lparr> pe_context = 7 \<rparr> ?m
          = Some (s', True, map (reparent_event 7) (live ?m))"
    using C1_reparenting_pass [of "\<lparr> pe_context = 7 \<rparr>" 7 "(5, [1])" "Some 1"
        "Suc (Suc (Suc (Suc 0)))" ?D "\<lambda>s. s" ?m] wb
    by simp
  then show ?thesis
    by (simp add: onProviderRequest_def map_set_def map_delete_def map_has_def
          reparent_event_def)
qed


section \<open>Facts about the provider's request handler\<close>

lemma addCallback_frame:
  "p_host (fst (addCallback cb h sub p)) = p_host p"
  "p_context (fst (addCallback cb h sub p)) = p_context p"
  "p_value (fst (addCallback cb h sub p)) = p_value p"
  "p_id (fst (addCallback cb h sub p)) = p_id p"
  by (simp_all add: addCallback_def Let_def)

lemma addCallback_call:
  "snd (addCallback cb h sub p)
     = (cb, p_value p,
        if sub then map_option disposer (map_get cb (p_subscriptions (fst (addCallback cb h sub p))))
        else None)"
  by (simp add: addCallback_def Let_def)

lemma addCallback_registers:
  "sub \<Longrightarrow> map_has cb (p_subscriptions (fst (addCallback cb h sub p)))"
  by (simp add: addCallback_def Let_def map_has_set)


lemma addCallback_one_shot: "\<not> sub \<Longrightarrow> fst (addCallback cb h sub p) = p"
  by (simp add: addCallback_def)

lemma onContextRequest_ignore:
  "ev_context ev \<noteq> p_context p \<or> Some (fst pth) = p_host p \<Longrightarrow>
     onContextRequest p pth ev = (p, False, [])"
  by (auto simp add: onContextRequest_def)

lemma onContextRequest_claim:
  "ev_context ev = p_context p \<Longrightarrow> Some (fst pth) \<noteq> p_host p \<Longrightarrow>
     onContextRequest p pth ev
       = (fst (addCallback (ev_callback ev) (fst pth) (ev_subscribe ev) p), True,
          [snd (addCallback (ev_callback ev) (fst pth) (ev_subscribe ev) p)])"
  by (simp add: onContextRequest_def split: prod.splits)

lemma request_listener_ignore:
  "\<not> claims w pth ev pid \<Longrightarrow> request_listener pth ev (w, b) pid = (w, b)"
  by (auto simp add: claims_def request_listener_def onContextRequest_ignore)





section \<open>Facts about the world\<close>

lemma same_frame_refl: "same_frame w w"
  by (simp add: same_frame_def)

lemma same_frame_trans: "same_frame w w1 \<Longrightarrow> same_frame w1 w2 \<Longrightarrow> same_frame w w2"
  by (simp add: same_frame_def)

lemma same_frame_provider_update:
  assumes "p_host p = p_host (w_providers w ! pid)" "p_context p = p_context (w_providers w ! pid)"
    "p_value p = p_value (w_providers w ! pid)" "p_id p = p_id (w_providers w ! pid)"
  shows "same_frame w (w\<lparr> w_providers := (w_providers w)[pid := p] \<rparr>)"
proof -
  have "\<And>i. p_host ((w_providers w)[pid := p] ! i) = p_host (w_providers w ! i)
      \<and> p_context ((w_providers w)[pid := p] ! i) = p_context (w_providers w ! i)
      \<and> p_value ((w_providers w)[pid := p] ! i) = p_value (w_providers w ! i)
      \<and> p_id ((w_providers w)[pid := p] ! i) = p_id (w_providers w ! i)"
  proof -
    fix i
    show "p_host ((w_providers w)[pid := p] ! i) = p_host (w_providers w ! i)
      \<and> p_context ((w_providers w)[pid := p] ! i) = p_context (w_providers w ! i)
      \<and> p_value ((w_providers w)[pid := p] ! i) = p_value (w_providers w ! i)
      \<and> p_id ((w_providers w)[pid := p] ! i) = p_id (w_providers w ! i)"
    proof (cases "i = pid \<and> pid < length (w_providers w)")
      case True
      with assms show ?thesis by simp
    next
      case False
      then have "(w_providers w)[pid := p] ! i = w_providers w ! i"
        by (cases "i = pid") (simp_all add: list_update_beyond)
      then show ?thesis by simp
    qed
  qed
  then show ?thesis by (simp add: same_frame_def)
qed

lemma same_frame_claims: "same_frame w w' \<Longrightarrow> claims w' pth ev pid = claims w pth ev pid"
  by (simp add: same_frame_def claims_def)

lemma remove_entry_frame:
  "p_host (remove_entry h p) = p_host p" "p_context (remove_entry h p) = p_context p"
  "p_value (remove_entry h p) = p_value p" "p_id (remove_entry h p) = p_id p"
  by (simp_all add: remove_entry_def)

lemma invoke_disposer_frame: "same_frame w (invoke_disposer h w)"
  by (simp add: invoke_disposer_def Let_def same_frame_refl same_frame_provider_update
        remove_entry_frame)

lemma invoke_disposer_consumers: "w_consumers (invoke_disposer h w) = w_consumers w"
  by (simp add: invoke_disposer_def Let_def)

lemma perform_frame: "same_frame w (perform cb w x)"
  by (cases x) (simp_all add: invoke_disposer_frame same_frame_refl, simp add: same_frame_def)

lemma perform_consumers: "w_consumers (perform cb w x) = w_consumers w"
  by (cases x) (simp_all add: invoke_disposer_consumers)

lemma perform_all_frame: "same_frame w (foldl (perform cb) w xs)"
proof (induction xs arbitrary: w)
  case Nil
  show ?case by (simp add: same_frame_refl)
next
  case (Cons x xs)
  have "same_frame w (perform cb w x)" by (rule perform_frame)
  moreover have "same_frame (perform cb w x) (foldl (perform cb) (perform cb w x) xs)"
    by (rule Cons.IH)
  ultimately show ?case by (simp add: same_frame_trans [of w "perform cb w x"])
qed

lemma perform_all_consumers: "w_consumers (foldl (perform cb) w xs) = w_consumers w"
  by (induction xs arbitrary: w) (simp_all add: perform_consumers)

lemma deliver_frame: "same_frame w (deliver w d)"
proof (cases d)
  case (fields cb v u)
  show ?thesis
  proof (cases "cb < length (w_consumers w)")
    case False
    with fields show ?thesis by (simp add: deliver_def same_frame_def)
  next
    case True
    let ?r = "consumer_callback (w_consumers w ! cb) v u"
    let ?w1 = "w\<lparr> w_consumers := (w_consumers w)[cb := fst ?r],
                 w_deliveries := w_deliveries w @ [d] \<rparr>"
    have "same_frame w ?w1" by (simp add: same_frame_def)
    moreover have "same_frame ?w1 (foldl (perform cb) ?w1 (snd ?r))" by (rule perform_all_frame)
    ultimately have "same_frame w (foldl (perform cb) ?w1 (snd ?r))" by (rule same_frame_trans)
    with fields True show ?thesis by (simp add: deliver_def case_prod_beta)
  qed
qed

lemma deliver_consumers:
  "cb < length (w_consumers w) \<Longrightarrow>
     w_consumers (deliver w (cb, v, u))
       = (w_consumers w)[cb := fst (consumer_callback (w_consumers w ! cb) v u)]"
  by (simp add: deliver_def perform_all_consumers split: prod.splits)

text \<open>The world after provider \<open>pid\<close> has answered a request event.\<close>

lemma request_listener_claim:
  "claims w pth ev pid \<Longrightarrow>
     request_listener pth ev (w, b) pid
       = (deliver (w\<lparr> w_providers := (w_providers w)[pid :=
                        fst (addCallback (ev_callback ev) (fst pth) (ev_subscribe ev)
                               (w_providers w ! pid))] \<rparr>)
            (snd (addCallback (ev_callback ev) (fst pth) (ev_subscribe ev) (w_providers w ! pid))),
          True)"
  by (simp add: claims_def request_listener_def onContextRequest_claim)

lemma claim_frame:
  "same_frame w
     (deliver (w\<lparr> w_providers := (w_providers w)[pid :=
                        fst (addCallback cb h sub (w_providers w ! pid))] \<rparr>) d)"
proof -
  let ?w1 = "w\<lparr> w_providers := (w_providers w)[pid := fst (addCallback cb h sub (w_providers w ! pid))] \<rparr>"
  have "same_frame w ?w1"
    by (rule same_frame_provider_update) (simp_all add: addCallback_frame)
  moreover have "same_frame ?w1 (deliver ?w1 d)" by (rule deliver_frame)
  ultimately show ?thesis by (rule same_frame_trans)
qed

lemma listeners_none_claim:
  "filter (claims w0 pth ev) pids = [] \<Longrightarrow> same_frame w0 w \<Longrightarrow>
     foldl (request_listener pth ev) (w, b) pids = (w, b)"
proof (induction pids)
  case Nil
  show ?case by simp
next
  case (Cons x xs)
  from Cons.prems have "\<not> claims w0 pth ev x" and rest: "filter (claims w0 pth ev) xs = []"
    by (simp_all split: if_splits)
  with Cons.prems(2) have "\<not> claims w pth ev x" by (simp add: same_frame_claims)
  then have "request_listener pth ev (w, b) x = (w, b)" by (rule request_listener_ignore)
  with Cons.IH [OF rest Cons.prems(2)] show ?case by simp
qed

lemma listeners_one_claims:
  "filter (claims w pth ev) pids = [pid] \<Longrightarrow>
     foldl (request_listener pth ev) (w, False) pids
       = (deliver (w\<lparr> w_providers := (w_providers w)[pid :=
                        fst (addCallback (ev_callback ev) (fst pth) (ev_subscribe ev)
                               (w_providers w ! pid))] \<rparr>)
            (snd (addCallback (ev_callback ev) (fst pth) (ev_subscribe ev) (w_providers w ! pid))),
          True)"
proof (induction pids)
  case Nil
  then show ?case by simp
next
  case (Cons x xs)
  show ?case
  proof (cases "claims w pth ev x")
    case True
    with Cons.prems have x: "x = pid" and rest: "filter (claims w pth ev) xs = []" by simp_all
    let ?w1 = "deliver (w\<lparr> w_providers := (w_providers w)[pid :=
                        fst (addCallback (ev_callback ev) (fst pth) (ev_subscribe ev)
                               (w_providers w ! pid))] \<rparr>)
            (snd (addCallback (ev_callback ev) (fst pth) (ev_subscribe ev) (w_providers w ! pid)))"
    from True x have "request_listener pth ev (w, False) x = (?w1, True)"
      by (simp add: request_listener_claim)
    moreover have "foldl (request_listener pth ev) (?w1, True) xs = (?w1, True)"
      using rest by (rule listeners_none_claim) (rule claim_frame)
    ultimately show ?thesis by simp
  next
    case False
    with Cons.prems have rest: "filter (claims w pth ev) xs = [pid]" by simp
    from False have "request_listener pth ev (w, False) x = (w, False)"
      by (rule request_listener_ignore)
    with Cons.IH [OF rest] show ?thesis by simp
  qed
qed

lemma bubble_through:
  "(\<And>x. x \<in> set inner \<Longrightarrow> filter (claims w pth ev) (listeners_at ContextRequest x w) = []) \<Longrightarrow>
     bubble_request pth ev (inner @ rest) w
       = (fst (bubble_request pth ev rest w), inner @ snd (bubble_request pth ev rest w))"
proof (induction inner)
  case Nil
  show ?case by simp
next
  case (Cons x xs)
  have "filter (claims w pth ev) (listeners_at ContextRequest x w) = []"
    by (rule Cons.prems) simp
  then have "foldl (request_listener pth ev) (w, False) (listeners_at ContextRequest x w) = (w, False)"
    by (rule listeners_none_claim) (rule same_frame_refl)
  moreover have "bubble_request pth ev (xs @ rest) w
       = (fst (bubble_request pth ev rest w), xs @ snd (bubble_request pth ev rest w))"
    by (rule Cons.IH) (rule Cons.prems, simp)
  ultimately show ?case by simp
qed

lemma bubble_nearest:
  assumes "\<And>x. x \<in> set inner \<Longrightarrow> filter (claims w pth ev) (listeners_at ContextRequest x w) = []"
    and "filter (claims w pth ev) (listeners_at ContextRequest e w) = [pid]"
  shows "bubble_request pth ev (inner @ e # outer) w
       = (deliver (w\<lparr> w_providers := (w_providers w)[pid :=
                        fst (addCallback (ev_callback ev) (fst pth) (ev_subscribe ev)
                               (w_providers w ! pid))] \<rparr>)
            (snd (addCallback (ev_callback ev) (fst pth) (ev_subscribe ev) (w_providers w ! pid))),
          inner @ [e])"
proof -
  have "bubble_request pth ev (e # outer) w
       = (deliver (w\<lparr> w_providers := (w_providers w)[pid :=
                        fst (addCallback (ev_callback ev) (fst pth) (ev_subscribe ev)
                               (w_providers w ! pid))] \<rparr>)
            (snd (addCallback (ev_callback ev) (fst pth) (ev_subscribe ev) (w_providers w ! pid))),
          [e])"
    by (simp add: listeners_one_claims [OF assms(2)])
  then show ?thesis by (simp add: bubble_through [OF assms(1)])
qed


lemma perform_deliveries: "w_deliveries (perform cb w x) = w_deliveries w"
  by (cases x) (simp_all add: invoke_disposer_def Let_def)

lemma perform_all_deliveries: "w_deliveries (foldl (perform cb) w xs) = w_deliveries w"
  by (induction xs arbitrary: w) (simp_all add: perform_deliveries)

lemma deliver_deliveries: "w_deliveries (deliver w d) = w_deliveries w @ [d]"
  by (cases d) (simp add: deliver_def case_prod_beta perform_all_deliveries)

lemma consumer_connect:
  "cid < length (w_consumers w) \<Longrightarrow> c_host (w_consumers w ! cid) = Some h \<Longrightarrow>
     consumer_call cid HostConnected w
       = dispatch_request h \<lparr> ev_context = c_context (w_consumers w ! cid),
                              ev_callback = c_self (w_consumers w ! cid),
                              ev_subscribe = c_subscribe (w_consumers w ! cid) \<rparr> w"
  by (simp add: consumer_call_def hostConnected_def dispatchRequest_def)

lemma dispatch_nearest:
  assumes "fst (composedPath w h) # snd (composedPath w h) = inner @ e # outer"
    and "\<forall>x \<in> set inner.
           filter (claims w (composedPath w h) ev) (listeners_at ContextRequest x w) = []"
    and "filter (claims w (composedPath w h) ev) (listeners_at ContextRequest e w) = [pid]"
  shows "dispatch_request h ev w
       = deliver (w\<lparr> w_providers := (w_providers w)[pid :=
                        fst (addCallback (ev_callback ev) (fst (composedPath w h)) (ev_subscribe ev)
                               (w_providers w ! pid))] \<rparr>)
            (snd (addCallback (ev_callback ev) (fst (composedPath w h)) (ev_subscribe ev)
                    (w_providers w ! pid)))"
proof -
  let ?pth = "composedPath w h"
  have inner: "\<And>x. x \<in> set inner \<Longrightarrow>
      filter (claims w ?pth ev) (listeners_at ContextRequest x w) = []"
    using assms(2) by blast
  have "dispatch_request h ev w = fst (bubble_request ?pth ev (inner @ e # outer) w)"
    by (simp only: dispatch_request_def Let_def assms(1))
  then show ?thesis by (simp only: bubble_nearest [OF inner assms(3)] fst_conv)
qed

text \<open>
  C2: a consumer bound to element h dispatches its request; on the event path, no
  provider listening on the elements before e answers requests for the consumer's
  context, and exactly one provider listening on e does. Then, whatever providers listen
  on the elements beyond e, the event reaches the elements up to e and none beyond, and
  the consumer's value afterwards is the value of the provider on e.
\<close>

theorem C2_nearest_provider_claims:
  assumes "cid < length (w_consumers w)"
    and "c_self (w_consumers w ! cid) = cid"
    and "c_host (w_consumers w ! cid) = Some h"
    and "ev = \<lparr> ev_context = c_context (w_consumers w ! cid), ev_callback = cid,
                 ev_subscribe = c_subscribe (w_consumers w ! cid) \<rparr>"
    and "fst (composedPath w h) # snd (composedPath w h) = inner @ e # outer"
    and "\<forall>x \<in> set inner.
           filter (claims w (composedPath w h) ev) (listeners_at ContextRequest x w) = []"
    and "filter (claims w (composedPath w h) ev) (listeners_at ContextRequest e w) = [pid]"
  shows "c_value (w_consumers (consumer_call cid HostConnected w) ! cid)
           = p_value (w_providers w ! pid)
       \<and> snd (bubble_request (composedPath w h) ev (inner @ e # outer) w) = inner @ [e]"
proof -
  let ?a = "addCallback (ev_callback ev) (fst (composedPath w h)) (ev_subscribe ev)
              (w_providers w ! pid)"
  let ?w1 = "w\<lparr> w_providers := (w_providers w)[pid := fst ?a] \<rparr>"
  have "consumer_call cid HostConnected w = dispatch_request h ev w"
    using assms(1-4) by (simp add: consumer_connect)
  also have "\<dots> = deliver ?w1 (snd ?a)"
    using assms(5-7) by (rule dispatch_nearest)
  finally have r: "consumer_call cid HostConnected w = deliver ?w1 (snd ?a)" .
  have call: "snd ?a = (cid, p_value (w_providers w ! pid), snd (snd (snd ?a)))"
    using assms(4) by (simp add: addCallback_call)
  have "w_consumers (deliver ?w1 (cid, p_value (w_providers w ! pid), snd (snd (snd ?a))))
      = (w_consumers ?w1)[cid := fst (consumer_callback (w_consumers ?w1 ! cid)
            (p_value (w_providers w ! pid)) (snd (snd (snd ?a))))]"
    using assms(1) by (intro deliver_consumers) simp
  with call have "w_consumers (deliver ?w1 (snd ?a)) ! cid
      = fst (consumer_callback (w_consumers w ! cid)
            (p_value (w_providers w ! pid)) (snd (snd (snd ?a))))"
    using assms(1) by simp
  with r have "c_value (w_consumers (consumer_call cid HostConnected w) ! cid)
           = p_value (w_providers w ! pid)"
    by (simp add: callback_state)
  moreover have "snd (bubble_request (composedPath w h) ev (inner @ e # outer) w) = inner @ [e]"
  proof -
    have inner: "\<And>x. x \<in> set inner \<Longrightarrow>
        filter (claims w (composedPath w h) ev) (listeners_at ContextRequest x w) = []"
      using assms(6) by blast
    show ?thesis by (simp only: bubble_nearest [OF inner assms(7)] snd_conv)
  qed
  ultimately show ?thesis by simp
qed

lemma nested_path: "composedPath nested_world 3 = (3, [2, 1, 0])"
  by (simp add: composedPath_def nested_world_def)

theorem C2_nearest_provider_claims_witness:
  "c_value (w_consumers (consumer_call 0 HostConnected nested_world) ! 0) = Some 20
   \<and> snd (bubble_request (composedPath nested_world 3)
            \<lparr> ev_context = 7, ev_callback = 0, ev_subscribe = True \<rparr> ([3] @ 2 # [1, 0])
            nested_world) = [3, 2]"
proof -
  let ?ev = "\<lparr> ev_context = 7, ev_callback = 0, ev_subscribe = True \<rparr>"
  have h1: "0 < length (w_consumers nested_world)" by (simp add: nested_world_def)
  have h2: "c_self (w_consumers nested_world ! 0) = 0"
    by (simp add: nested_world_def new_consumer_def)
  have h3: "c_host (w_consumers nested_world ! 0) = Some 3"
    by (simp add: nested_world_def new_consumer_def)
  have h4: "?ev = \<lparr> ev_context = c_context (w_consumers nested_world ! 0), ev_callback = 0,
                 ev_subscribe = c_subscribe (w_consumers nested_world ! 0) \<rparr>"
    by (simp add: nested_world_def new_consumer_def)
  have h5: "fst (composedPath nested_world 3) # snd (composedPath nested_world 3)
              = [3] @ 2 # [1, 0]"
    by (simp add: nested_path)
  have h6: "\<forall>x \<in> set [3]. filter (claims nested_world (composedPath nested_world 3) ?ev)
              (listeners_at ContextRequest x nested_world) = []"
    by (simp add: nested_path) (simp add: nested_world_def listeners_at_def)
  have h7: "filter (claims nested_world (composedPath nested_world 3) ?ev)
              (listeners_at ContextRequest 2 nested_world) = [1]"
    by (simp add: nested_path)
       (simp add: nested_world_def listeners_at_def claims_def new_provider_def)
  have "p_value (w_providers nested_world ! 1) = Some 20"
    by (simp add: nested_world_def new_provider_def)
  with C2_nearest_provider_claims [OF h1 h2 h3 h4 h5 h6 h7] show ?thesis by simp
qed

lemma scenario_mounted_eq:
  "scenario_mounted
     = Some (scenario (Some 1000)
               [(0, Some 1000, Some (Disposer 0 0 0)), (1, Some 1000, None)]
               [(0, Some 1000, Some (Disposer 0 0 0)), (1, Some 1000, None)])"
  by (simp add: scenario_mounted_def scenario_start_def scenario_def provider_bind_def
        provider_hostConnected_def new_provider_def new_consumer_def addEventListener_def
        dispatch_provider_def composedPath_def listeners_at_def provider_listener_def
        onProviderRequest_def consumer_call_def bind_def hostConnected_def dispatchRequest_def
        dispatch_request_def request_listener_def onContextRequest_def addCallback_def
        map_has_def map_set_def map_get_def deliver_def consumer_callback_def cleanup_def)

lemma scenario_setValue:
  "setValue 0 v (scenario x calls dels)
     = scenario v (calls @ [(0, v, Some (Disposer 0 0 0))]) (dels @ [(0, v, Some (Disposer 0 0 0))])"
  by (simp add: setValue_def scenario_def broadcast_slot_def deliver_def consumer_callback_def
        cleanup_def)


lemma scenario_updates:
  "\<exists>calls' dels'.
     foldl (\<lambda>w v. setValue 0 v w) (scenario x calls dels) vs = scenario (last (x # vs)) calls' dels'
     \<and> filter (\<lambda>d. fst d = 1) dels' = filter (\<lambda>d. fst d = 1) dels"
proof (induction vs arbitrary: x calls dels)
  case Nil
  show ?case by (rule exI [of _ calls], rule exI [of _ dels]) simp
next
  case (Cons v vs)
  from Cons.IH [of v "calls @ [(0, v, Some (Disposer 0 0 0))]" "dels @ [(0, v, Some (Disposer 0 0 0))]"]
  show ?case by (simp add: scenario_setValue)
qed

lemma scenario_consumers:
  "c_value (w_consumers (scenario x calls dels) ! 0) = x"
  "c_value (w_consumers (scenario x calls dels) ! Suc 0) = Some 1000"
  "map c_value (w_consumers (scenario x calls dels)) = [x, Some 1000]"
  "w_deliveries (scenario x calls dels) = dels"
  by (simp_all add: scenario_def)

lemma same_frame_listeners: "same_frame w w' \<Longrightarrow> listeners_at t e w' = listeners_at t e w"
  by (simp add: same_frame_def listeners_at_def)

lemma same_frame_path: "same_frame w w' \<Longrightarrow> composedPath w' h = composedPath w h"
  by (simp add: same_frame_def composedPath_def)

lemma live_remove:
  "live (map (\<lambda>slot. case slot of None \<Rightarrow> None
                      | Some (k, s) \<Rightarrow> if disposer s = h then None else Some (k, s)) m)
     = filter (\<lambda>kv. disposer (snd kv) \<noteq> h) (live m)"
  by (induction m rule: live.induct) auto

lemma not_subscribed_after_invoke: "\<not> subscribed_with h (invoke_disposer h w)"
  by (auto simp add: subscribed_with_def invoke_disposer_def Let_def remove_entry_def live_remove)

lemma consumer_disconnect:
  "cid < length (w_consumers w) \<Longrightarrow>
     consumer_call cid HostDisconnected w
       = (case c_unsubscribe (w_consumers w ! cid) of
            None \<Rightarrow> w
          | Some held \<Rightarrow>
              invoke_disposer held
                (w\<lparr> w_consumers := (w_consumers w)[cid := (w_consumers w ! cid)\<lparr> c_unsubscribe := None \<rparr>] \<rparr>))"
  by (simp add: consumer_call_def hostDisconnected_def split: option.splits)

lemma consumer_update_frame: "same_frame w (w\<lparr> w_consumers := (w_consumers w)[cid := c] \<rparr>)"
  by (simp add: same_frame_def)

lemma disconnect_frame:
  "cid < length (w_consumers w) \<Longrightarrow> same_frame w (consumer_call cid HostDisconnected w)"
proof (cases "c_unsubscribe (w_consumers w ! cid)")
  case None
  assume "cid < length (w_consumers w)"
  with None show ?thesis by (simp add: consumer_disconnect same_frame_refl)
next
  case (Some held)
  assume valid: "cid < length (w_consumers w)"
  let ?w1 = "w\<lparr> w_consumers := (w_consumers w)[cid := (w_consumers w ! cid)\<lparr> c_unsubscribe := None \<rparr>] \<rparr>"
  have "same_frame w ?w1" by (rule consumer_update_frame)
  moreover have "same_frame ?w1 (invoke_disposer held ?w1)" by (rule invoke_disposer_frame)
  ultimately have "same_frame w (invoke_disposer held ?w1)" by (rule same_frame_trans)
  with Some valid show ?thesis by (simp add: consumer_disconnect)
qed

lemma disconnect_consumer:
  "cid < length (w_consumers w) \<Longrightarrow>
     w_consumers (consumer_call cid HostDisconnected w) ! cid
       = (w_consumers w ! cid)\<lparr> c_unsubscribe := None \<rparr>"
  by (cases "c_unsubscribe (w_consumers w ! cid)")
     (simp_all add: consumer_disconnect invoke_disposer_consumers)

lemma disconnect_deliveries:
  "cid < length (w_consumers w) \<Longrightarrow>
     w_deliveries (consumer_call cid HostDisconnected w) = w_deliveries w"
  by (cases "c_unsubscribe (w_consumers w ! cid)")
     (simp_all add: consumer_disconnect invoke_disposer_def Let_def)

lemma disconnect_unsubscribes:
  "cid < length (w_consumers w) \<Longrightarrow> c_unsubscribe (w_consumers w ! cid) = Some held \<Longrightarrow>
     \<not> subscribed_with held (consumer_call cid HostDisconnected w)"
  by (simp add: consumer_disconnect not_subscribed_after_invoke)

lemma deliver_unheld_providers:
  assumes "cb < length (w_consumers w)" and "c_unsubscribe (w_consumers w ! cb) = None"
  shows "w_providers (deliver w (cb, v, u)) = w_providers w"
proof -
  have p: "w_providers (foldl (perform cb) w' es) = w_providers w'"
    if "unsubscribed es = []" for w' :: "'a world" and es
    using that
  proof (induction es arbitrary: w')
    case Nil
    show ?case by simp
  next
    case (Cons x xs)
    then show ?case by (cases x) simp_all
  qed
  have "unsubscribed (snd (consumer_callback (w_consumers w ! cb) v u)) = []"
    using assms(2) by (simp add: callback_unsubscribed cleanup_unsubscribed)
  then show ?thesis using assms(1) by (simp add: deliver_def case_prod_beta p)
qed

text \<open>
  C7: a consumer bound to element h, whose request the provider \<open>pid\<close> listening on e is
  the nearest to answer, is disconnected and connected again. Disconnecting invokes the
  held unsubscribe handle, if one is held, and clears it; afterwards that handle is the
  handle of no entry in the registry of its provider. Connecting dispatches one request
  event at h with the consumer's context, callback and subscribe flag; the provider
  answers with one delivery of its current value, which the consumer stores; and a
  subscribing consumer then holds the handle of its entry in that provider's registry.
\<close>

theorem C7_detach_reattach:
  assumes "cid < length (w_consumers w)"
    and "c_self (w_consumers w ! cid) = cid"
    and "c_host (w_consumers w ! cid) = Some h"
    and "ev = \<lparr> ev_context = c_context (w_consumers w ! cid), ev_callback = cid,
                 ev_subscribe = c_subscribe (w_consumers w ! cid) \<rparr>"
    and "fst (composedPath w h) # snd (composedPath w h) = inner @ e # outer"
    and "\<forall>x \<in> set inner.
           filter (claims w (composedPath w h) ev) (listeners_at ContextRequest x w) = []"
    and "filter (claims w (composedPath w h) ev) (listeners_at ContextRequest e w) = [pid]"
  shows "snd (hostDisconnected (w_consumers w ! cid))
           = (case c_unsubscribe (w_consumers w ! cid) of
                None \<Rightarrow> [] | Some held \<Rightarrow> [Unsubscribe held])
       \<and> c_unsubscribe (w_consumers (consumer_call cid HostDisconnected w) ! cid) = None
       \<and> (case c_unsubscribe (w_consumers w ! cid) of
            None \<Rightarrow> True
          | Some held \<Rightarrow> \<not> subscribed_with held (consumer_call cid HostDisconnected w))
       \<and> snd (hostConnected (w_consumers (consumer_call cid HostDisconnected w) ! cid))
           = [Dispatch h ev]
       \<and> (\<exists>u. w_deliveries (consumer_call cid HostConnected (consumer_call cid HostDisconnected w))
                 = w_deliveries w @ [(cid, p_value (w_providers w ! pid), u)]
              \<and> c_unsubscribe (w_consumers (consumer_call cid HostConnected
                    (consumer_call cid HostDisconnected w)) ! cid) = u
              \<and> (if c_subscribe (w_consumers w ! cid)
                  then map_has cid (p_subscriptions (w_providers (consumer_call cid HostConnected
                          (consumer_call cid HostDisconnected w)) ! pid))
                     \<and> u = map_option disposer (map_get cid
                          (p_subscriptions (w_providers (consumer_call cid HostConnected
                             (consumer_call cid HostDisconnected w)) ! pid)))
                  else u = None))
       \<and> c_value (w_consumers (consumer_call cid HostConnected
             (consumer_call cid HostDisconnected w)) ! cid)
           = p_value (w_providers w ! pid)"
proof -
  let ?c = "w_consumers w ! cid"
  let ?w1 = "consumer_call cid HostDisconnected w"
  let ?w2 = "consumer_call cid HostConnected ?w1"
  have fr: "same_frame w ?w1" using assms(1) by (rule disconnect_frame)
  have c1: "w_consumers ?w1 ! cid = ?c\<lparr> c_unsubscribe := None \<rparr>"
    using assms(1) by (rule disconnect_consumer)
  have len1: "cid < length (w_consumers ?w1)" using fr assms(1) by (simp add: same_frame_def)
  have pth: "composedPath ?w1 h = composedPath w h" using fr by (rule same_frame_path)
  let ?pth = "composedPath w h"
  have inner1: "\<forall>x \<in> set inner.
           filter (claims ?w1 (composedPath ?w1 h) ev) (listeners_at ContextRequest x ?w1) = []"
    using assms(6) fr
    by (simp add: pth same_frame_listeners [OF fr] same_frame_claims [OF fr, abs_def])
  have near1: "filter (claims ?w1 (composedPath ?w1 h) ev) (listeners_at ContextRequest e ?w1) = [pid]"
    using assms(7) fr
    by (simp add: pth same_frame_listeners [OF fr] same_frame_claims [OF fr, abs_def])
  have path1: "fst (composedPath ?w1 h) # snd (composedPath ?w1 h) = inner @ e # outer"
    using assms(5) by (simp add: pth)
  have pid: "pid < length (w_providers ?w1)"
  proof -
    have "pid \<in> set (filter (claims ?w1 (composedPath ?w1 h) ev) (listeners_at ContextRequest e ?w1))"
      by (simp only: near1) simp
    then show ?thesis by (simp add: claims_def)
  qed
  let ?a = "addCallback (ev_callback ev) (fst (composedPath ?w1 h)) (ev_subscribe ev)
              (w_providers ?w1 ! pid)"
  let ?wp = "?w1\<lparr> w_providers := (w_providers ?w1)[pid := fst ?a] \<rparr>"
  let ?v = "p_value (w_providers w ! pid)"
  have val: "p_value (w_providers ?w1 ! pid) = ?v" using fr by (simp add: same_frame_def)
  have ev1: "ev = \<lparr> ev_context = c_context (w_consumers ?w1 ! cid),
                 ev_callback = c_self (w_consumers ?w1 ! cid),
                 ev_subscribe = c_subscribe (w_consumers ?w1 ! cid) \<rparr>"
    using assms(2,4) by (simp add: c1)
  have "?w2 = dispatch_request h ev ?w1"
    using len1 assms(2,3,4) by (simp add: consumer_connect c1)
  also have "\<dots> = deliver ?wp (snd ?a)"
    using path1 inner1 near1 by (rule dispatch_nearest)
  finally have w2: "?w2 = deliver ?wp (snd ?a)" .
  define u where "u = (if ev_subscribe ev
      then map_option disposer (map_get (ev_callback ev) (p_subscriptions (fst ?a))) else None)"
  have call: "snd ?a = (cid, ?v, u)"
    using assms(4) unfolding u_def by (simp add: addCallback_call val)
  have lenp: "cid < length (w_consumers ?wp)" using len1 by simp
  have unheld: "c_unsubscribe (w_consumers ?wp ! cid) = None" by (simp add: c1)
  have cons2: "w_consumers ?w2 ! cid = fst (consumer_callback (w_consumers ?w1 ! cid) ?v u)"
    using lenp by (simp add: w2 call deliver_consumers)
  have prov2: "w_providers ?w2 ! pid = fst ?a"
    using pid by (simp add: w2 call deliver_unheld_providers [OF lenp unheld])
  have dels: "w_deliveries ?w2 = w_deliveries w @ [(cid, ?v, u)]"
    using assms(1) by (simp add: w2 call deliver_deliveries disconnect_deliveries)
  have handle: "if c_subscribe ?c
        then map_has cid (p_subscriptions (w_providers ?w2 ! pid))
           \<and> u = map_option disposer (map_get cid (p_subscriptions (w_providers ?w2 ! pid)))
        else u = None"
    using assms(4) unfolding u_def prov2 by (simp add: addCallback_registers)
  have "snd (hostDisconnected ?c)
           = (case c_unsubscribe ?c of None \<Rightarrow> [] | Some held \<Rightarrow> [Unsubscribe held])"
    by (simp add: hostDisconnected_def split: option.splits)
  moreover have "c_unsubscribe (w_consumers ?w1 ! cid) = None" by (simp add: c1)
  moreover have "case c_unsubscribe ?c of None \<Rightarrow> True
          | Some held \<Rightarrow> \<not> subscribed_with held ?w1"
    using assms(1) by (simp add: disconnect_unsubscribes split: option.splits)
  moreover have "snd (hostConnected (w_consumers ?w1 ! cid)) = [Dispatch h ev]"
    using assms(2,3,4) by (simp add: c1 hostConnected_def dispatchRequest_def)
  moreover have "\<exists>u. w_deliveries ?w2 = w_deliveries w @ [(cid, ?v, u)]
              \<and> c_unsubscribe (w_consumers ?w2 ! cid) = u
              \<and> (if c_subscribe ?c
                  then map_has cid (p_subscriptions (w_providers ?w2 ! pid))
                     \<and> u = map_option disposer (map_get cid (p_subscriptions (w_providers ?w2 ! pid)))
                  else u = None)"
    using dels handle by (intro exI [of _ u]) (simp add: cons2 callback_state)
  moreover have "c_value (w_consumers ?w2 ! cid) = ?v" by (simp add: cons2 callback_state)
  ultimately show ?thesis by (intro conjI)
qed


lemma scenario_path: "composedPath (scenario x calls dels) 2 = (2, [1, 0])"
  by (simp add: composedPath_def scenario_def)

theorem C7_detach_reattach_witness:
  "c_unsubscribe (w_consumers (scenario (Some 1000) [] []) ! 0) = Some (Disposer 0 0 0)
   \<and> subscribed_with (Disposer 0 0 0) (scenario (Some 1000) [] [])
   \<and> c_unsubscribe (w_consumers (consumer_call 0 HostDisconnected (scenario (Some 1000) [] [])) ! 0)
       = None
   \<and> \<not> subscribed_with (Disposer 0 0 0) (consumer_call 0 HostDisconnected (scenario (Some 1000) [] []))
   \<and> w_deliveries (consumer_call 0 HostConnected
         (consumer_call 0 HostDisconnected (scenario (Some 1000) [] [])))
       = [(0, Some 1000, Some (Disposer 0 0 1))]
   \<and> c_value (w_consumers (consumer_call 0 HostConnected
         (consumer_call 0 HostDisconnected (scenario (Some 1000) [] []))) ! 0) = Some 1000
   \<and> subscribed_with (Disposer 0 0 1) (consumer_call 0 HostConnected
         (consumer_call 0 HostDisconnected (scenario (Some 1000) [] [])))"
proof -
  let ?w = "scenario (Some 1000) [] []"
  let ?ev = "\<lparr> ev_context = 7, ev_callback = 0, ev_subscribe = True \<rparr>"
  have h1: "0 < length (w_consumers ?w)" by (simp add: scenario_def)
  have h2: "c_self (w_consumers ?w ! 0) = 0" by (simp add: scenario_def)
  have h3: "c_host (w_consumers ?w ! 0) = Some 2" by (simp add: scenario_def)
  have h4: "?ev = \<lparr> ev_context = c_context (w_consumers ?w ! 0), ev_callback = 0,
                 ev_subscribe = c_subscribe (w_consumers ?w ! 0) \<rparr>"
    by (simp add: scenario_def)
  have h5: "fst (composedPath ?w 2) # snd (composedPath ?w 2) = [2] @ 1 # [0]"
    by (simp add: scenario_path)
  have h6: "\<forall>x \<in> set [2]. filter (claims ?w (composedPath ?w 2) ?ev)
              (listeners_at ContextRequest x ?w) = []"
    by (simp add: scenario_path) (simp add: scenario_def listeners_at_def)
  have h7: "filter (claims ?w (composedPath ?w 2) ?ev) (listeners_at ContextRequest 1 ?w) = [0]"
    by (simp add: scenario_path) (simp add: scenario_def listeners_at_def claims_def)
  note C7_detach_reattach [OF h1 h2 h3 h4 h5 h6 h7]
  then show ?thesis
    by (simp add: scenario_def consumer_call_def hostDisconnected_def hostConnected_def
          dispatchRequest_def invoke_disposer_def remove_entry_def subscribed_with_def
          dispatch_request_def composedPath_def listeners_at_def request_listener_def
          onContextRequest_def addCallback_def map_has_def map_set_def map_get_def deliver_def
          consumer_callback_def cleanup_def)
qed

section \<open>Facts about announcements\<close>

lemma request_listener_frame: "same_frame w (fst (request_listener pth ev (w, b) pid))"
proof (cases "claims w pth ev pid")
  case True
  then show ?thesis by (simp add: request_listener_claim claim_frame)
next
  case False
  then show ?thesis by (simp add: request_listener_ignore same_frame_refl)
qed

lemma request_listeners_frame:
  "same_frame w (fst (foldl (request_listener pth ev) (w, b) pids))"
proof (induction pids arbitrary: w b)
  case Nil
  show ?case by (simp add: same_frame_refl)
next
  case (Cons x xs)
  obtain w1 b1 where st: "request_listener pth ev (w, b) x = (w1, b1)"
    by (cases "request_listener pth ev (w, b) x")
  have "same_frame w (fst (request_listener pth ev (w, b) x))" by (rule request_listener_frame)
  then have "same_frame w w1" by (simp add: st)
  moreover have "same_frame w1 (fst (foldl (request_listener pth ev) (w1, b1) xs))"
    by (rule Cons.IH)
  ultimately show ?case by (simp add: st same_frame_trans [of w w1])
qed

lemma bubble_request_frame: "same_frame w (fst (bubble_request pth ev es w))"
proof (induction es arbitrary: w)
  case Nil
  show ?case by (simp add: same_frame_refl)
next
  case (Cons x xs)
  obtain w1 b1 where st:
    "foldl (request_listener pth ev) (w, False) (listeners_at ContextRequest x w) = (w1, b1)"
    by (cases "foldl (request_listener pth ev) (w, False) (listeners_at ContextRequest x w)")
  have "same_frame w (fst (foldl (request_listener pth ev) (w, False)
          (listeners_at ContextRequest x w)))"
    by (rule request_listeners_frame)
  then have one: "same_frame w w1" by (simp add: st)
  have two: "same_frame w1 (fst (bubble_request pth ev xs w1))" by (rule Cons.IH)
  from one two have "same_frame w (fst (bubble_request pth ev xs w1))" by (rule same_frame_trans)
  with one show ?case by (simp add: st case_prod_beta)
qed

lemma dispatch_request_frame: "same_frame w (dispatch_request e ev w)"
  unfolding dispatch_request_def Let_def by (rule bubble_request_frame)

lemma reparent_frame:
  assumes step: "\<And>h ev s. R s (D h ev s)"
    and refl: "\<And>s. R s s"
    and trans: "\<And>a b c. R a b \<Longrightarrow> R b c \<Longrightarrow> R a c"
  shows "reparent fuel D subs ctx i seen s = Some (s', evs) \<Longrightarrow> R s s'"
proof (induction fuel arbitrary: i seen s s' evs)
  case 0
  then show ?case by (simp add: refl split: if_splits)
next
  case (Suc n)
  show ?case
  proof (cases "i < length (subs s)")
    case False
    with Suc.prems show ?thesis by (simp add: refl)
  next
    case inside: True
    show ?thesis
    proof (cases "subs s ! i")
      case None
      with Suc.prems inside have "reparent n D subs ctx (Suc i) seen s = Some (s', evs)" by simp
      then show ?thesis by (rule Suc.IH)
    next
      case (Some kv)
      obtain cb sub where kv: "kv = (cb, sub)" by (cases kv)
      show ?thesis
      proof (cases "cb \<in> seen")
        case True
        with Suc.prems inside Some kv
        have "reparent n D subs ctx (Suc i) seen s = Some (s', evs)" by simp
        then show ?thesis by (rule Suc.IH)
      next
        case False
        let ?ev = "\<lparr> ev_context = ctx, ev_callback = cb, ev_subscribe = True \<rparr>"
        from Suc.prems inside Some kv False
        obtain evs' where rec: "reparent n D subs ctx (Suc i) (insert cb seen)
              (D (consumerHost sub) ?ev s) = Some (s', evs')"
          by (auto simp add: Let_def)
        have "R s (D (consumerHost sub) ?ev s)" by (rule step)
        moreover have "R (D (consumerHost sub) ?ev s) s'" using rec by (rule Suc.IH)
        ultimately show ?thesis by (rule trans)
      qed
    qed
  qed
qed

lemma provider_listener_frame:
  "provider_listener fuel pth ev (Some (w, b)) pid = Some (w1, b1) \<Longrightarrow> same_frame w w1"
proof (cases "pid < length (w_providers w)")
  case False
  assume "provider_listener fuel pth ev (Some (w, b)) pid = Some (w1, b1)"
  with False show ?thesis by (simp add: provider_listener_def same_frame_refl)
next
  case True
  assume r: "provider_listener fuel pth ev (Some (w, b)) pid = Some (w1, b1)"
  show ?thesis
  proof (cases "pe_context ev \<noteq> p_context (w_providers w ! pid)
                 \<or> Some (fst pth) = p_host (w_providers w ! pid)")
    case ignore: True
    with r True show ?thesis
      by (auto simp add: provider_listener_def onProviderRequest_def same_frame_refl)
  next
    case False
    with r True obtain evs where
      "reparent fuel dispatch_request (\<lambda>w. p_subscriptions (w_providers w ! pid))
         (p_context (w_providers w ! pid)) 0 {} w = Some (w1, evs)"
      by (auto simp add: provider_listener_def onProviderRequest_def)
    then show ?thesis
      by (rule reparent_frame [where R = same_frame, rotated 3])
         (rule dispatch_request_frame, rule same_frame_refl, erule same_frame_trans, assumption)
  qed
qed

lemma provider_listeners_None: "foldl (provider_listener fuel pth ev) None pids = None"
  by (induction pids) (simp_all add: provider_listener_def)

lemma provider_listeners_frame:
  "foldl (provider_listener fuel pth ev) (Some (w, b)) pids = Some (w1, b1) \<Longrightarrow> same_frame w w1"
proof (induction pids arbitrary: w b)
  case Nil
  then show ?case by (simp add: same_frame_refl)
next
  case (Cons x xs)
  show ?case
  proof (cases "provider_listener fuel pth ev (Some (w, b)) x")
    case None
    with Cons.prems show ?thesis by (simp add: provider_listeners_None)
  next
    case (Some st)
    obtain w2 b2 where st: "st = (w2, b2)" by (cases st)
    from Some st have "same_frame w w2" by (simp add: provider_listener_frame)
    moreover from Cons.prems Some st have "same_frame w2 w1" by (simp add: Cons.IH)
    ultimately show ?thesis by (rule same_frame_trans)
  qed
qed

lemma bubble_provider_frame:
  "bubble_provider fuel pth ev es w = Some w1 \<Longrightarrow> same_frame w w1"
proof (induction es arbitrary: w)
  case Nil
  then show ?case by (simp add: same_frame_refl)
next
  case (Cons x xs)
  show ?case
  proof (cases "foldl (provider_listener fuel pth ev) (Some (w, False))
                  (listeners_at ContextProvider x w)")
    case None
    with Cons.prems show ?thesis by simp
  next
    case (Some st)
    obtain w2 b2 where st: "st = (w2, b2)" by (cases st)
    from Some st have one: "same_frame w w2" by (simp add: provider_listeners_frame)
    show ?thesis
    proof (cases b2)
      case True
      with Cons.prems Some st one show ?thesis by simp
    next
      case False
      with Cons.prems Some st have "bubble_provider fuel pth ev xs w2 = Some w1" by simp
      then have "same_frame w2 w1" by (rule Cons.IH)
      with one show ?thesis by (rule same_frame_trans)
    qed
  qed
qed

lemma dispatch_provider_frame: "dispatch_provider fuel e ev w = Some w1 \<Longrightarrow> same_frame w w1"
  unfolding dispatch_provider_def Let_def by (rule bubble_provider_frame)

lemma addEventListener_member: "(e, t, pid) \<in> set (w_listeners (addEventListener e t pid w))"
  by (simp add: addEventListener_def)

lemma addEventListener_keeps:
  "l \<in> set (w_listeners w) \<Longrightarrow> l \<in> set (w_listeners (addEventListener e t pid w))"
  by (simp add: addEventListener_def)

lemma addEventListener_providers: "w_providers (addEventListener e t pid w) = w_providers w"
  by (simp add: addEventListener_def)

text \<open>
  C10: in the FASTElement-behavior variant, \<^verbatim>\<open>unbind\<close> leaves the world as it is. After a
  \<^verbatim>\<open>bind\<close> that ended, both listeners of the provider are registered on its host, and
  after \<^verbatim>\<open>unbind\<close> they still are; the registry is the same; and every request event
  dispatched afterwards has the outcome it would have had without the \<^verbatim>\<open>unbind\<close>.
\<close>

theorem C10_fast_unbind_changes_nothing:
  assumes "pid < length (w_providers w)" and "fast_bind fuel pid source w = Some w1"
  shows "fast_unbind pid w1 = w1
       \<and> (source, ContextRequest, pid) \<in> set (w_listeners (fast_unbind pid w1))
       \<and> (source, ContextProvider, pid) \<in> set (w_listeners (fast_unbind pid w1))
       \<and> p_subscriptions (w_providers (fast_unbind pid w1) ! pid)
           = p_subscriptions (w_providers w1 ! pid)
       \<and> dispatch_request e ev (fast_unbind pid w1) = dispatch_request e ev w1"
proof -
  let ?w0 = "w\<lparr> w_providers := (w_providers w)[pid := (w_providers w ! pid)\<lparr> p_host := Some source \<rparr>] \<rparr>"
  let ?wl = "attachListeners pid ?w0"
  have host: "p_host (w_providers ?w0 ! pid) = Some source" using assms(1) by simp
  then have wl: "?wl = addEventListener source ContextProvider pid
                        (addEventListener source ContextRequest pid ?w0)"
    by (simp add: attachListeners_def)
  have l1: "(source, ContextRequest, pid) \<in> set (w_listeners ?wl)"
    unfolding wl by (intro addEventListener_keeps addEventListener_member)
  have l2: "(source, ContextProvider, pid) \<in> set (w_listeners ?wl)"
    unfolding wl by (rule addEventListener_member)
  have hostl: "p_host (w_providers ?wl ! pid) = Some source"
    unfolding wl using host by (simp add: addEventListener_providers)
  from assms(2) have "fast_hostConnected fuel pid ?wl = Some w1" by (simp add: fast_bind_def)
  then have "dispatch_provider fuel source \<lparr> pe_context = p_context (w_providers ?wl ! pid) \<rparr> ?wl
               = Some w1"
    by (simp add: fast_hostConnected_def hostl)
  then have "same_frame ?wl w1" by (rule dispatch_provider_frame)
  then have "w_listeners w1 = w_listeners ?wl" by (simp add: same_frame_def)
  with l1 l2 show ?thesis by (simp add: fast_unbind_def)
qed

theorem C10_fast_unbind_changes_nothing_witness:
  "map_option (\<lambda>w. w_listeners (fast_unbind 0 w)) (fast_bind 0 0 1 scenario_start)
     = Some [(1, ContextRequest, 0), (1, ContextProvider, 0)]
   \<and> map_option (\<lambda>w. c_value (w_consumers (consumer_call 0 (Bind 2) (fast_unbind 0 w)) ! 0))
       (fast_bind 0 0 1 scenario_start) = Some (Some 1000)
   \<and> map_option (\<lambda>w. p_subscriptions (w_providers (consumer_call 0 (Bind 2) (fast_unbind 0 w)) ! 0))
       (fast_bind 0 0 1 scenario_start)
       = Some [Some (0, \<lparr> consumerHost = 2, disposer = Disposer 0 0 0 \<rparr>)]"
proof -
  let ?w1 = "scenario_start\<lparr> w_listeners := [(1, ContextRequest, 0), (1, ContextProvider, 0)] \<rparr>"
  have b: "fast_bind 0 0 1 scenario_start = Some ?w1"
    by (simp add: fast_bind_def fast_hostConnected_def attachListeners_def scenario_start_def
          new_provider_def addEventListener_def dispatch_provider_def composedPath_def
          listeners_at_def provider_listener_def onProviderRequest_def)
  have v: "0 < length (w_providers scenario_start)" by (simp add: scenario_start_def)
  from C10_fast_unbind_changes_nothing [OF v b, of 2 "\<lparr> ev_context = 7, ev_callback = 0, ev_subscribe = True \<rparr>"]
  show ?thesis
    unfolding b option.map
    by (simp add: fast_unbind_def scenario_start_def new_provider_def new_consumer_def
          consumer_call_def bind_def hostConnected_def dispatchRequest_def
          dispatch_request_def composedPath_def listeners_at_def request_listener_def
          onContextRequest_def addCallback_def map_has_def map_set_def map_get_def deliver_def
          consumer_callback_def cleanup_def)
qed

section \<open>A late provider takes a subscription over\<close>

text \<open>
  The re-parenting pass inside the world: the consumer is first served by the outer
  provider; when the inner provider connects, its announcement reaches the outer
  provider, whose pass dispatches the consumer's request again; the inner provider
  answers it, and the consumer unsubscribes from the outer one.
\<close>

lemma late_outer_first_eq:
  "late_outer_first
     = Some \<lparr> w_dom = [Element 0 [Element 1 [Element 2 [Element 3 []]]]],
              w_providers =
                [\<lparr> p_host = Some 1, p_context = 7, p_value = Some 10,
                   p_subscriptions = [Some (0, \<lparr> consumerHost = 3, disposer = Disposer 0 0 0 \<rparr>)],
                   p_serial = 1, p_id = 0 \<rparr>,
                 new_provider 1 (Some 2) 7 (Some 20)],
              w_consumers =
                [\<lparr> c_host = Some 3, c_context = 7, c_callback = True, c_subscribe = True,
                   c_provided = True, c_value = Some 10,
                   c_unsubscribe = Some (Disposer 0 0 0), c_self = 0 \<rparr>],
              w_listeners = [(1, ContextRequest, 0), (1, ContextProvider, 0)],
              w_calls = [(0, Some 10, Some (Disposer 0 0 0))],
              w_deliveries = [(0, Some 10, Some (Disposer 0 0 0))] \<rparr>"
  by (simp add: late_outer_first_def late_start_def provider_bind_def
        provider_hostConnected_def new_provider_def new_consumer_def addEventListener_def
        dispatch_provider_def composedPath_def listeners_at_def provider_listener_def
        onProviderRequest_def consumer_call_def bind_def hostConnected_def dispatchRequest_def
        dispatch_request_def request_listener_def onContextRequest_def addCallback_def
        map_has_def map_set_def map_get_def deliver_def consumer_callback_def cleanup_def)

lemma late_provider_takes_over:
  "Option.bind late_outer_first (provider_bind (Suc 0) 1)
     = Some \<lparr> w_dom = [Element 0 [Element 1 [Element 2 [Element 3 []]]]],
              w_providers =
                [\<lparr> p_host = Some 1, p_context = 7, p_value = Some 10,
                   p_subscriptions = [None], p_serial = 1, p_id = 0 \<rparr>,
                 \<lparr> p_host = Some 2, p_context = 7, p_value = Some 20,
                   p_subscriptions = [Some (0, \<lparr> consumerHost = 3, disposer = Disposer 1 0 0 \<rparr>)],
                   p_serial = 1, p_id = 1 \<rparr>],
              w_consumers =
                [\<lparr> c_host = Some 3, c_context = 7, c_callback = True, c_subscribe = True,
                   c_provided = True, c_value = Some 20,
                   c_unsubscribe = Some (Disposer 1 0 0), c_self = 0 \<rparr>],
              w_listeners = [(1, ContextRequest, 0), (1, ContextProvider, 0),
                             (2, ContextRequest, 1), (2, ContextProvider, 1)],
              w_calls = [(0, Some 10, Some (Disposer 0 0 0)), (0, Some 20, Some (Disposer 1 0 0))],
              w_deliveries =
                [(0, Some 10, Some (Disposer 0 0 0)), (0, Some 20, Some (Disposer 1 0 0))] \<rparr>"
  unfolding late_outer_first_eq
  by (simp add: provider_bind_def
        provider_hostConnected_def new_provider_def addEventListener_def
        dispatch_provider_def composedPath_def listeners_at_def provider_listener_def
        onProviderRequest_def
        dispatch_request_def request_listener_def onContextRequest_def addCallback_def
        map_has_def map_set_def map_get_def deliver_def consumer_callback_def cleanup_def
        invoke_disposer_def remove_entry_def)

section \<open>Value changes after mounting\<close>

subsection \<open>Broadcasts over a sound registry\<close>

lemma deliver_quiet:
  assumes "cb < length (w_consumers w)" and "snd (cleanup (w_consumers w ! cb) u) = []"
  shows "deliver w (cb, v, u)
       = w\<lparr> w_consumers := (w_consumers w)[cb := fst (consumer_callback (w_consumers w ! cb) v u)],
            w_calls := w_calls w @
               (if (\<not> c_provided (w_consumers w ! cb) \<or> is_handoff (w_consumers w ! cb) u
                      \<or> c_subscribe (w_consumers w ! cb)) \<and> c_callback (w_consumers w ! cb)
                then [(cb, v, u)] else []),
            w_deliveries := w_deliveries w @ [(cb, v, u)] \<rparr>"
  using assms by (simp add: deliver_def case_prod_beta callback_effects)

lemma deliver_foreign:
  "\<not> cb < length (w_consumers w) \<Longrightarrow>
     deliver w (cb, v, u) = w\<lparr> w_deliveries := w_deliveries w @ [(cb, v, u)] \<rparr>"
  by (simp add: deliver_def)

lemma cleanup_same_handle:
  "c_unsubscribe c = Some h \<Longrightarrow> c_subscribe c \<Longrightarrow> cleanup c (Some h) = (c, [])"
  by (simp add: cleanup_def)

lemma cleanup_unheld: "c_unsubscribe c = None \<Longrightarrow> cleanup c u = (c, [])"
  by (simp add: cleanup_def)

lemma callback_same_handle:
  "c_unsubscribe c = Some h \<Longrightarrow> c_subscribe c \<Longrightarrow>
     fst (consumer_callback c v (Some h)) = c\<lparr> c_value := v, c_provided := True \<rparr>"
  by (simp add: consumer_callback_def cleanup_same_handle)

lemma callback_unheld:
  "c_unsubscribe c = None \<Longrightarrow> \<not> c_provided c \<Longrightarrow>
     fst (consumer_callback c v u) = c\<lparr> c_value := v, c_provided := True, c_unsubscribe := u \<rparr>"
  by (simp add: consumer_callback_def cleanup_unheld)

lemma notify_held:
  assumes "holds_entry w kv" and "fst kv < length (w_consumers w)"
  shows "notify v w kv
       = w\<lparr> w_consumers := (w_consumers w)[fst kv :=
                (w_consumers w ! fst kv)\<lparr> c_value := v, c_provided := True \<rparr>],
            w_calls := w_calls w @
               (if c_callback (w_consumers w ! fst kv)
                then [(fst kv, v, Some (disposer (snd kv)))] else []),
            w_deliveries := w_deliveries w @ [(fst kv, v, Some (disposer (snd kv)))] \<rparr>"
proof -
  let ?c = "w_consumers w ! fst kv"
  from assms have h: "c_unsubscribe ?c = Some (disposer (snd kv))" and s: "c_subscribe ?c"
    by (simp_all add: holds_entry_def)
  have q: "snd (cleanup ?c (Some (disposer (snd kv)))) = []"
    using h s by (simp add: cleanup_same_handle)
  show ?thesis
    unfolding notify_def deliver_quiet [OF assms(2) q]
    using s by (simp add: callback_same_handle [OF h s])
qed

lemma notify_foreign:
  "\<not> fst kv < length (w_consumers w) \<Longrightarrow>
     notify v w kv = w\<lparr> w_deliveries := w_deliveries w @ [(fst kv, v, Some (disposer (snd kv)))] \<rparr>"
  by (simp add: notify_def deliver_foreign)

lemma notify_fields:
  assumes "holds_entry w kv"
  shows "w_providers (notify v w kv) = w_providers w"
    and "length (w_consumers (notify v w kv)) = length (w_consumers w)"
    and "w_deliveries (notify v w kv) = w_deliveries w @ [(fst kv, v, Some (disposer (snd kv)))]"
    and "w_calls (notify v w kv)
           = w_calls w @ (if fst kv < length (w_consumers w) \<and> c_callback (w_consumers w ! fst kv)
                          then [(fst kv, v, Some (disposer (snd kv)))] else [])"
    and "w_consumers (notify v w kv)
           = (if fst kv < length (w_consumers w)
              then (w_consumers w)[fst kv := (w_consumers w ! fst kv)\<lparr> c_value := v, c_provided := True \<rparr>]
              else w_consumers w)"
  using assms
  by (cases "fst kv < length (w_consumers w)"; simp add: notify_held notify_foreign)+


lemma notify_consumer:
  assumes "holds_entry w kv"
  shows "w_consumers (notify v w kv) ! i
       = (if i = fst kv \<and> i < length (w_consumers w)
          then (w_consumers w ! i)\<lparr> c_value := v, c_provided := True \<rparr>
          else w_consumers w ! i)"
  using assms by (auto simp add: notify_fields)

lemma notify_holds:
  assumes "holds_entry w kv" and "holds_entry w kv2"
  shows "holds_entry (notify v w kv) kv2"
  using assms(2) unfolding holds_entry_def
  by (auto simp add: notify_fields(2) [OF assms(1)] notify_consumer [OF assms(1)])

lemma notify_holds_all:
  "holds_entry w kv \<Longrightarrow> list_all (holds_entry w) kvs \<Longrightarrow>
     list_all (holds_entry (notify v w kv)) kvs"
  by (simp add: list_all_iff notify_holds)

lemma notify_all_providers:
  "list_all (holds_entry w) kvs \<Longrightarrow> w_providers (foldl (notify v) w kvs) = w_providers w"
  by (induction kvs arbitrary: w) (simp_all add: notify_fields notify_holds_all)

lemma notify_all_length:
  "list_all (holds_entry w) kvs \<Longrightarrow>
     length (w_consumers (foldl (notify v) w kvs)) = length (w_consumers w)"
  by (induction kvs arbitrary: w) (simp_all add: notify_fields notify_holds_all)

lemma notify_all_deliveries:
  "list_all (holds_entry w) kvs \<Longrightarrow>
     w_deliveries (foldl (notify v) w kvs)
       = w_deliveries w @ map (\<lambda>kv. (fst kv, v, Some (disposer (snd kv)))) kvs"
  by (induction kvs arbitrary: w) (simp_all add: notify_fields notify_holds_all)

lemma notify_all_holds:
  "list_all (holds_entry w) kvs \<Longrightarrow> holds_entry w kv2 \<Longrightarrow>
     holds_entry (foldl (notify v) w kvs) kv2"
  by (induction kvs arbitrary: w) (simp_all add: notify_holds notify_holds_all)

lemma notify_all_untouched:
  "list_all (holds_entry w) kvs \<Longrightarrow> i \<notin> fst ` set kvs \<Longrightarrow>
     w_consumers (foldl (notify v) w kvs) ! i = w_consumers w ! i"
  by (induction kvs arbitrary: w) (simp_all add: notify_consumer notify_holds_all)

lemma notify_all_touched:
  "list_all (holds_entry w) kvs \<Longrightarrow> i \<in> fst ` set kvs \<Longrightarrow> i < length (w_consumers w) \<Longrightarrow>
     w_consumers (foldl (notify v) w kvs) ! i
       = (w_consumers w ! i)\<lparr> c_value := v, c_provided := True \<rparr>"
proof (induction kvs arbitrary: w)
  case Nil
  then show ?case by simp
next
  case (Cons kv kvs)
  from Cons.prems(1) have h: "holds_entry w kv" and hs: "list_all (holds_entry w) kvs" by simp_all
  let ?w1 = "notify v w kv"
  have hs1: "list_all (holds_entry ?w1) kvs" using h hs by (rule notify_holds_all)
  have len: "i < length (w_consumers ?w1)" using Cons.prems(3) by (simp add: notify_fields [OF h])
  show ?case
  proof (cases "i \<in> fst ` set kvs")
    case True
    from Cons.IH [OF hs1 True len]
    show ?thesis by (auto simp add: notify_consumer [OF h])
  next
    case False
    with Cons.prems(2) have "i = fst kv" by auto
    with False Cons.prems(3) show ?thesis
      by (simp add: notify_all_untouched [OF hs1] notify_consumer [OF h])
  qed
qed

lemma notify_all_calls:
  "list_all (holds_entry w) kvs \<Longrightarrow>
     w_calls (foldl (notify v) w kvs)
       = w_calls w @ map (\<lambda>kv. (fst kv, v, Some (disposer (snd kv))))
           (filter (\<lambda>kv. fst kv < length (w_consumers w) \<and> c_callback (w_consumers w ! fst kv)) kvs)"
proof (induction kvs arbitrary: w)
  case Nil
  show ?case by simp
next
  case (Cons kv kvs)
  from Cons.prems have h: "holds_entry w kv" and hs: "list_all (holds_entry w) kvs" by simp_all
  let ?w1 = "notify v w kv"
  have hs1: "list_all (holds_entry ?w1) kvs" using h hs by (rule notify_holds_all)
  have same: "(\<lambda>kv. fst kv < length (w_consumers ?w1) \<and> c_callback (w_consumers ?w1 ! fst kv))
            = (\<lambda>kv. fst kv < length (w_consumers w) \<and> c_callback (w_consumers w ! fst kv))"
    by (rule ext) (auto simp add: notify_fields(2) [OF h] notify_consumer [OF h])
  from Cons.IH [OF hs1] show ?case
    by (simp add: same notify_fields(4) [OF h])
qed


lemma broadcast_slot_notify:
  "i < length (p_subscriptions (w_providers w ! pid)) \<Longrightarrow>
     broadcast_slot pid w i
       = (case p_subscriptions (w_providers w ! pid) ! i of
            None \<Rightarrow> w
          | Some kv \<Rightarrow> notify (p_value (w_providers w ! pid)) w kv)"
  by (simp add: broadcast_slot_def notify_def Let_def split: option.splits)

lemma live_take_Suc:
  "n < length m \<Longrightarrow>
     live (take (Suc n) m) = live (take n m) @ (case m ! n of None \<Rightarrow> [] | Some kv \<Rightarrow> [kv])"
  by (simp add: take_Suc_conv_app_nth live_append split: option.splits)

lemma live_take_subset: "set (live (take n m)) \<subseteq> set (live m)"
proof -
  have "live m = live (take n m) @ live (drop n m)"
    by (simp only: live_append [symmetric] append_take_drop_id)
  then show ?thesis by simp
qed

lemma broadcast_prefix:
  assumes "list_all (holds_entry w) (live m)"
    and "p_subscriptions (w_providers w ! pid) = m"
    and "p_value (w_providers w ! pid) = v"
  shows "n \<le> length m \<Longrightarrow>
     foldl (broadcast_slot pid) w [0 ..< n] = foldl (notify v) w (live (take n m))"
proof (induction n)
  case 0
  show ?case by simp
next
  case (Suc n)
  then have n: "n < length m" by simp
  let ?W = "foldl (notify v) w (live (take n m))"
  have pre: "list_all (holds_entry w) (live (take n m))"
    using assms(1) live_take_subset [of n m] by (auto simp add: list_all_iff)
  have prov: "w_providers ?W = w_providers w" using pre by (rule notify_all_providers)
  have "foldl (broadcast_slot pid) w [0 ..< Suc n] = broadcast_slot pid ?W n"
    using Suc by simp
  also have "\<dots> = (case m ! n of None \<Rightarrow> ?W | Some kv \<Rightarrow> notify v ?W kv)"
    using n by (simp add: broadcast_slot_notify prov assms(2,3) split: option.splits)
  also have "\<dots> = foldl (notify v) w (live (take (Suc n) m))"
    by (simp add: live_take_Suc [OF n] split: option.splits)
  finally show ?case .
qed

lemma holds_entry_consumers:
  "w_consumers w' = w_consumers w \<Longrightarrow> holds_entry w' = holds_entry w"
  by (rule ext) (simp add: holds_entry_def)

lemma setValue_notify:
  assumes "pid < length (w_providers w)" and "registry_sound w pid"
  shows "setValue pid v w
       = foldl (notify v)
           (w\<lparr> w_providers := (w_providers w)[pid := (w_providers w ! pid)\<lparr> p_value := v \<rparr>] \<rparr>)
           (live (p_subscriptions (w_providers w ! pid)))"
proof -
  let ?m = "p_subscriptions (w_providers w ! pid)"
  let ?w0 = "w\<lparr> w_providers := (w_providers w)[pid := (w_providers w ! pid)\<lparr> p_value := v \<rparr>] \<rparr>"
  have h: "list_all (holds_entry ?w0) (live ?m)"
    using assms(2) by (simp add: registry_sound_def holds_entry_consumers [of ?w0 w])
  have m: "p_subscriptions (w_providers ?w0 ! pid) = ?m" using assms(1) by simp
  have v: "p_value (w_providers ?w0 ! pid) = v" using assms(1) by simp
  have "foldl (broadcast_slot pid) ?w0 [0 ..< length ?m] = foldl (notify v) ?w0 (live (take (length ?m) ?m))"
    using h m v by (rule broadcast_prefix) simp
  then show ?thesis using assms(1) by (simp add: setValue_def)
qed


lemma setValue_fields:
  assumes "pid < length (w_providers w)" and "registry_sound w pid"
  shows "w_providers (setValue pid v w)
           = (w_providers w)[pid := (w_providers w ! pid)\<lparr> p_value := v \<rparr>]"
    and "length (w_consumers (setValue pid v w)) = length (w_consumers w)"
    and "w_deliveries (setValue pid v w)
           = w_deliveries w @ map (\<lambda>kv. (fst kv, v, Some (disposer (snd kv))))
               (live (p_subscriptions (w_providers w ! pid)))"
    and "w_calls (setValue pid v w)
           = w_calls w @ map (\<lambda>kv. (fst kv, v, Some (disposer (snd kv))))
               (filter (\<lambda>kv. fst kv < length (w_consumers w) \<and> c_callback (w_consumers w ! fst kv))
                  (live (p_subscriptions (w_providers w ! pid))))"
proof -
  let ?m = "p_subscriptions (w_providers w ! pid)"
  let ?w0 = "w\<lparr> w_providers := (w_providers w)[pid := (w_providers w ! pid)\<lparr> p_value := v \<rparr>] \<rparr>"
  have h: "list_all (holds_entry ?w0) (live ?m)"
    using assms(2) by (simp add: registry_sound_def holds_entry_consumers [of ?w0 w])
  note eq = setValue_notify [OF assms, of v]
  show "w_providers (setValue pid v w)
           = (w_providers w)[pid := (w_providers w ! pid)\<lparr> p_value := v \<rparr>]"
    unfolding eq by (simp add: notify_all_providers [OF h])
  show "length (w_consumers (setValue pid v w)) = length (w_consumers w)"
    unfolding eq by (simp add: notify_all_length [OF h])
  show "w_deliveries (setValue pid v w)
           = w_deliveries w @ map (\<lambda>kv. (fst kv, v, Some (disposer (snd kv)))) (live ?m)"
    unfolding eq by (simp add: notify_all_deliveries [OF h])
  show "w_calls (setValue pid v w)
           = w_calls w @ map (\<lambda>kv. (fst kv, v, Some (disposer (snd kv))))
               (filter (\<lambda>kv. fst kv < length (w_consumers w) \<and> c_callback (w_consumers w ! fst kv))
                  (live ?m))"
    unfolding eq by (simp add: notify_all_calls [OF h])
qed

lemma setValue_untouched:
  assumes "pid < length (w_providers w)" and "registry_sound w pid"
    and "i \<notin> fst ` set (live (p_subscriptions (w_providers w ! pid)))"
  shows "w_consumers (setValue pid v w) ! i = w_consumers w ! i"
proof -
  let ?m = "p_subscriptions (w_providers w ! pid)"
  let ?w0 = "w\<lparr> w_providers := (w_providers w)[pid := (w_providers w ! pid)\<lparr> p_value := v \<rparr>] \<rparr>"
  have h: "list_all (holds_entry ?w0) (live ?m)"
    using assms(2) by (simp add: registry_sound_def holds_entry_consumers [of ?w0 w])
  show ?thesis
    unfolding setValue_notify [OF assms(1,2), of v]
    by (simp add: notify_all_untouched [OF h assms(3)])
qed

lemma setValue_touched:
  assumes "pid < length (w_providers w)" and "registry_sound w pid"
    and "i \<in> fst ` set (live (p_subscriptions (w_providers w ! pid)))"
    and "i < length (w_consumers w)"
  shows "w_consumers (setValue pid v w) ! i = (w_consumers w ! i)\<lparr> c_value := v, c_provided := True \<rparr>"
proof -
  let ?m = "p_subscriptions (w_providers w ! pid)"
  let ?w0 = "w\<lparr> w_providers := (w_providers w)[pid := (w_providers w ! pid)\<lparr> p_value := v \<rparr>] \<rparr>"
  have h: "list_all (holds_entry ?w0) (live ?m)"
    using assms(2) by (simp add: registry_sound_def holds_entry_consumers [of ?w0 w])
  have len: "i < length (w_consumers ?w0)" using assms(4) by simp
  show ?thesis
    unfolding setValue_notify [OF assms(1,2), of v]
    by (simp add: notify_all_touched [OF h assms(3) len])
qed

lemma setValue_sound:
  assumes "pid < length (w_providers w)" and "registry_sound w pid"
  shows "registry_sound (setValue pid v w) pid"
proof -
  let ?m = "p_subscriptions (w_providers w ! pid)"
  let ?w0 = "w\<lparr> w_providers := (w_providers w)[pid := (w_providers w ! pid)\<lparr> p_value := v \<rparr>] \<rparr>"
  have h: "list_all (holds_entry ?w0) (live ?m)"
    using assms(2) by (simp add: registry_sound_def holds_entry_consumers [of ?w0 w])
  have "list_all (holds_entry (foldl (notify v) ?w0 (live ?m))) (live ?m)"
    using h by (simp add: list_all_iff notify_all_holds)
  then have "list_all (holds_entry (setValue pid v w)) (live ?m)"
    by (simp only: setValue_notify [OF assms, of v])
  moreover have "p_subscriptions (w_providers (setValue pid v w) ! pid) = ?m"
    using assms(1) by (simp add: setValue_fields(1) [OF assms])
  moreover have "distinct (map fst (live ?m))" using assms(2) by (simp add: registry_sound_def)
  ultimately show ?thesis by (simp add: registry_sound_def)
qed

lemma one_shot_not_registered:
  assumes "registry_sound w pid" and "i < length (w_consumers w)"
    and "\<not> c_subscribe (w_consumers w ! i)"
  shows "i \<notin> fst ` set (live (p_subscriptions (w_providers w ! pid)))"
proof
  assume "i \<in> fst ` set (live (p_subscriptions (w_providers w ! pid)))"
  then obtain kv where kv: "kv \<in> set (live (p_subscriptions (w_providers w ! pid)))" "fst kv = i"
    by auto
  with assms(1) have "holds_entry w kv" by (simp add: registry_sound_def list_all_iff)
  with kv(2) assms(2,3) show False by (simp add: holds_entry_def)
qed

lemma unheld_not_registered:
  assumes "registry_sound w pid" and "i < length (w_consumers w)"
    and "c_unsubscribe (w_consumers w ! i) = None"
  shows "i \<notin> fst ` set (live (p_subscriptions (w_providers w ! pid)))"
proof
  assume "i \<in> fst ` set (live (p_subscriptions (w_providers w ! pid)))"
  then obtain kv where kv: "kv \<in> set (live (p_subscriptions (w_providers w ! pid)))" "fst kv = i"
    by auto
  with assms(1) have "holds_entry w kv" by (simp add: registry_sound_def list_all_iff)
  with kv(2) assms(2,3) show False by (simp add: holds_entry_def)
qed

lemma filter_notified_none:
  "i \<notin> fst ` set kvs \<Longrightarrow>
     filter (\<lambda>d. fst d = i) (map (\<lambda>kv. (fst kv, v, Some (disposer (snd kv)))) kvs) = []"
  by (induction kvs) auto

lemma filter_notified_one:
  "distinct (map fst kvs) \<Longrightarrow> (i, sub) \<in> set kvs \<Longrightarrow>
     filter (\<lambda>d. fst d = i) (map (\<lambda>kv. (fst kv, v, Some (disposer (snd kv)))) kvs)
       = [(i, v, Some (disposer sub))]"
proof (induction kvs)
  case Nil
  then show ?case by simp
next
  case (Cons kv kvs)
  show ?case
  proof (cases "kv = (i, sub)")
    case True
    with Cons.prems(1) have "i \<notin> fst ` set kvs" by auto
    with True show ?thesis by (simp add: filter_notified_none)
  next
    case False
    with Cons.prems have in_rest: "(i, sub) \<in> set kvs" and d: "distinct (map fst kvs)" by simp_all
    from in_rest Cons.prems(1) have "fst kv \<noteq> i" by (auto simp add: rev_image_eqI)
    with Cons.IH [OF d in_rest] show ?thesis by simp
  qed
qed

lemma one_shot_setValue:
  assumes "pid < length (w_providers w)" and "registry_sound w pid"
    and "i < length (w_consumers w)" and "\<not> c_subscribe (w_consumers w ! i)"
  shows "w_consumers (setValue pid v w) ! i = w_consumers w ! i"
    and "deliveries_to i (setValue pid v w) = deliveries_to i w"
    and "values_written i (setValue pid v w) = values_written i w"
proof -
  let ?m = "p_subscriptions (w_providers w ! pid)"
  have out: "i \<notin> fst ` set (live ?m)"
    using assms(2,3,4) by (rule one_shot_not_registered)
  then have out2: "i \<notin> fst ` set (filter (\<lambda>kv. fst kv < length (w_consumers w)
        \<and> c_callback (w_consumers w ! fst kv)) (live ?m))"
    by auto
  show "w_consumers (setValue pid v w) ! i = w_consumers w ! i"
    using assms(1,2) out by (rule setValue_untouched)
  show "deliveries_to i (setValue pid v w) = deliveries_to i w"
    by (simp add: deliveries_to_def setValue_fields(3) [OF assms(1,2)] filter_notified_none [OF out])
  show "values_written i (setValue pid v w) = values_written i w"
    by (simp add: values_written_def setValue_fields(4) [OF assms(1,2)]
          filter_notified_none [OF out2])
qed

lemma one_shot_setValues:
  assumes "pid < length (w_providers w)" and "registry_sound w pid"
    and "i < length (w_consumers w)" and "\<not> c_subscribe (w_consumers w ! i)"
  shows "w_consumers (foldl (\<lambda>w v. setValue pid v w) w vs) ! i = w_consumers w ! i
       \<and> deliveries_to i (foldl (\<lambda>w v. setValue pid v w) w vs) = deliveries_to i w
       \<and> values_written i (foldl (\<lambda>w v. setValue pid v w) w vs) = values_written i w"
  using assms
proof (induction vs arbitrary: w)
  case Nil
  show ?case by simp
next
  case (Cons v vs)
  let ?w1 = "setValue pid v w"
  note one = one_shot_setValue [OF Cons.prems, of v]
  have p: "pid < length (w_providers ?w1)"
    using Cons.prems(1) by (simp add: setValue_fields(1) [OF Cons.prems(1,2)])
  have s: "registry_sound ?w1 pid" using Cons.prems(1,2) by (rule setValue_sound)
  have l: "i < length (w_consumers ?w1)"
    using Cons.prems(3) by (simp add: setValue_fields(2) [OF Cons.prems(1,2)])
  have n: "\<not> c_subscribe (w_consumers ?w1 ! i)" using Cons.prems(4) by (simp add: one(1))
  from Cons.IH [OF p s l n] show ?case by (simp add: one)
qed


lemma subscriber_setValue:
  assumes "pid < length (w_providers w)" and "registry_sound w pid"
    and "(i, sub) \<in> set (live (p_subscriptions (w_providers w ! pid)))"
    and "i < length (w_consumers w)" and "c_callback (w_consumers w ! i)"
  shows "w_consumers (setValue pid v w) ! i = (w_consumers w ! i)\<lparr> c_value := v, c_provided := True \<rparr>"
    and "deliveries_to i (setValue pid v w) = deliveries_to i w @ [(i, v, Some (disposer sub))]"
    and "values_written i (setValue pid v w) = values_written i w @ [v]"
proof -
  let ?m = "p_subscriptions (w_providers w ! pid)"
  let ?P = "\<lambda>kv. fst kv < length (w_consumers w) \<and> c_callback (w_consumers w ! fst kv)"
  have key: "i \<in> fst ` set (live ?m)" using assms(3) by (auto simp add: rev_image_eqI)
  have d: "distinct (map fst (live ?m))" using assms(2) by (simp add: registry_sound_def)
  have d2: "distinct (map fst (filter ?P (live ?m)))" using d by (rule distinct_map_filter)
  have in2: "(i, sub) \<in> set (filter ?P (live ?m))" using assms(3,4,5) by simp
  show "w_consumers (setValue pid v w) ! i = (w_consumers w ! i)\<lparr> c_value := v, c_provided := True \<rparr>"
    using assms(1,2) key assms(4) by (rule setValue_touched)
  show "deliveries_to i (setValue pid v w) = deliveries_to i w @ [(i, v, Some (disposer sub))]"
    by (simp add: deliveries_to_def setValue_fields(3) [OF assms(1,2)]
          filter_notified_one [OF d assms(3)])
  show "values_written i (setValue pid v w) = values_written i w @ [v]"
    by (simp add: values_written_def setValue_fields(4) [OF assms(1,2)]
          filter_notified_one [OF d2 in2])
qed

lemma subscriber_setValues:
  assumes "pid < length (w_providers w)" and "registry_sound w pid"
    and "(i, sub) \<in> set (live (p_subscriptions (w_providers w ! pid)))"
    and "i < length (w_consumers w)" and "c_callback (w_consumers w ! i)"
  shows "c_value (w_consumers (foldl (\<lambda>w v. setValue pid v w) w vs) ! i)
           = last (c_value (w_consumers w ! i) # vs)
       \<and> values_written i (foldl (\<lambda>w v. setValue pid v w) w vs) = values_written i w @ vs"
  using assms
proof (induction vs arbitrary: w)
  case Nil
  show ?case by simp
next
  case (Cons v vs)
  let ?w1 = "setValue pid v w"
  note one = subscriber_setValue [OF Cons.prems, of v]
  have p: "pid < length (w_providers ?w1)"
    using Cons.prems(1) by (simp add: setValue_fields(1) [OF Cons.prems(1,2)])
  have s: "registry_sound ?w1 pid" using Cons.prems(1,2) by (rule setValue_sound)
  have r: "(i, sub) \<in> set (live (p_subscriptions (w_providers ?w1 ! pid)))"
    using Cons.prems(1,3) by (simp add: setValue_fields(1) [OF Cons.prems(1,2)])
  have l: "i < length (w_consumers ?w1)"
    using Cons.prems(4) by (simp add: setValue_fields(2) [OF Cons.prems(1,2)])
  have c: "c_callback (w_consumers ?w1 ! i)" using Cons.prems(5) by (simp add: one(1))
  from Cons.IH [OF p s r l c] show ?case by (simp add: one)
qed

subsection \<open>Mounting a consumer\<close>

lemma first_claimers_split:
  "first_claimers w pth ev es = [pid] \<Longrightarrow>
     \<exists>inner e outer. es = inner @ e # outer
        \<and> (\<forall>x \<in> set inner. filter (claims w pth ev) (listeners_at ContextRequest x w) = [])
        \<and> filter (claims w pth ev) (listeners_at ContextRequest e w) = [pid]"
proof (induction es)
  case Nil
  then show ?case by simp
next
  case (Cons x xs)
  show ?case
  proof (cases "filter (claims w pth ev) (listeners_at ContextRequest x w)")
    case Nil
    with Cons.prems have "first_claimers w pth ev xs = [pid]" by simp
    from Cons.IH [OF this] obtain inner e outer where
      "xs = inner @ e # outer"
      "\<forall>y \<in> set inner. filter (claims w pth ev) (listeners_at ContextRequest y w) = []"
      "filter (claims w pth ev) (listeners_at ContextRequest e w) = [pid]"
      by blast
    with Nil have "x # xs = (x # inner) @ e # outer
        \<and> (\<forall>y \<in> set (x # inner). filter (claims w pth ev) (listeners_at ContextRequest y w) = [])
        \<and> filter (claims w pth ev) (listeners_at ContextRequest e w) = [pid]"
      by simp
    then show ?thesis by blast
  next
    case (Cons p ps)
    with Cons.prems have "filter (claims w pth ev) (listeners_at ContextRequest x w) = [pid]"
      by simp
    then have "x # xs = [] @ x # xs
        \<and> (\<forall>y \<in> set []. filter (claims w pth ev) (listeners_at ContextRequest y w) = [])
        \<and> filter (claims w pth ev) (listeners_at ContextRequest x w) = [pid]"
      by simp
    then show ?thesis by blast
  qed
qed

lemma nearest_valid:
  assumes "nearest_answer w h ev = [pid]"
  shows "pid < length (w_providers w)"
proof -
  from first_claimers_split [OF assms [unfolded nearest_answer_def]]
  obtain e where "filter (claims w (composedPath w h) ev) (listeners_at ContextRequest e w) = [pid]"
    by blast
  then have "pid \<in> set (filter (claims w (composedPath w h) ev) (listeners_at ContextRequest e w))"
    by simp
  then show ?thesis by (simp add: claims_def)
qed

lemma dispatch_first:
  assumes "nearest_answer w h ev = [pid]"
  shows "dispatch_request h ev w
       = deliver (w\<lparr> w_providers := (w_providers w)[pid :=
                        fst (addCallback (ev_callback ev) (fst (composedPath w h)) (ev_subscribe ev)
                               (w_providers w ! pid))] \<rparr>)
            (snd (addCallback (ev_callback ev) (fst (composedPath w h)) (ev_subscribe ev)
                    (w_providers w ! pid)))"
proof -
  from first_claimers_split [OF assms [unfolded nearest_answer_def]]
  obtain inner e outer where
    "fst (composedPath w h) # snd (composedPath w h) = inner @ e # outer"
    "\<forall>x \<in> set inner. filter (claims w (composedPath w h) ev) (listeners_at ContextRequest x w) = []"
    "filter (claims w (composedPath w h) ev) (listeners_at ContextRequest e w) = [pid]"
    by blast
  then show ?thesis by (rule dispatch_nearest)
qed

lemma first_claimers_frame:
  "same_frame w w' \<Longrightarrow> first_claimers w' pth ev es = first_claimers w pth ev es"
proof (induction es)
  case Nil
  show ?case by simp
next
  case (Cons x xs)
  have "claims w' pth ev = claims w pth ev"
    by (rule ext) (simp add: same_frame_claims [OF Cons.prems])
  with Cons show ?case
    by (simp add: same_frame_listeners [OF Cons.prems] split: list.splits)
qed

lemma nearest_answer_frame:
  "same_frame w w' \<Longrightarrow> nearest_answer w' h ev = nearest_answer w h ev"
  unfolding nearest_answer_def same_frame_path [of w w'] by (rule first_claimers_frame)

lemma path_head:
  "path_to e d = x # xs \<Longrightarrow> x = e"
  "path_to_any e ds = x # xs \<Longrightarrow> x = e"
  by (induction e d and e ds arbitrary: x xs and x xs rule: path_to_path_to_any.induct)
     (auto split: if_splits list.splits)

lemma composedPath_fst: "fst (composedPath w e) = e"
  by (auto simp add: composedPath_def path_head split: list.splits)

lemma consumer_bind:
  "cid < length (w_consumers w) \<Longrightarrow>
     consumer_call cid (Bind h) w
       = dispatch_request h \<lparr> ev_context = c_context (w_consumers w ! cid),
                              ev_callback = c_self (w_consumers w ! cid),
                              ev_subscribe = c_subscribe (w_consumers w ! cid) \<rparr>
           (w\<lparr> w_consumers := (w_consumers w)[cid := (w_consumers w ! cid)\<lparr> c_host := Some h \<rparr>] \<rparr>)"
  by (simp add: consumer_call_def bind_def hostConnected_def dispatchRequest_def)


lemma mount_one_shot:
  assumes "cid < length (w_consumers w)"
    and "w_consumers w ! cid = new_consumer cid ctx cbk so" and "so \<noteq> Some True"
    and "nearest_answer w h \<lparr> ev_context = ctx, ev_callback = cid, ev_subscribe = False \<rparr> = [pid]"
  shows "consumer_call cid (Bind h) w
       = w\<lparr> w_consumers := (w_consumers w)[cid :=
                \<lparr> c_host = Some h, c_context = ctx, c_callback = cbk, c_subscribe = False,
                  c_provided = True, c_value = p_value (w_providers w ! pid),
                  c_unsubscribe = None, c_self = cid \<rparr>],
            w_calls := w_calls w @
               (if cbk then [(cid, p_value (w_providers w ! pid), None)] else []),
            w_deliveries := w_deliveries w @ [(cid, p_value (w_providers w ! pid), None)] \<rparr>"
proof -
  let ?c = "new_consumer cid ctx cbk so :: 'a consumer"
  let ?ev = "\<lparr> ev_context = ctx, ev_callback = cid, ev_subscribe = False \<rparr>"
  let ?w0 = "w\<lparr> w_consumers := (w_consumers w)[cid := ?c\<lparr> c_host := Some h \<rparr>] \<rparr>"
  have sub: "c_subscribe ?c = False"
    using assms(3) by (cases so) (simp_all add: new_consumer_def)
  have ev: "\<lparr> ev_context = c_context ?c, ev_callback = c_self ?c, ev_subscribe = c_subscribe ?c \<rparr> = ?ev"
    by (simp add: sub) (simp add: new_consumer_def)
  have step1: "consumer_call cid (Bind h) w = dispatch_request h ?ev ?w0"
    using assms(1) by (simp only: consumer_bind assms(2) ev)
  have fr: "same_frame w ?w0" by (rule consumer_update_frame)
  have near: "nearest_answer ?w0 h ?ev = [pid]"
    using assms(4) by (simp only: nearest_answer_frame [OF fr])
  have pv: "pid < length (w_providers w)" using assms(4) by (rule nearest_valid)
  have step2: "dispatch_request h ?ev ?w0 = deliver ?w0 (cid, p_value (w_providers w ! pid), None)"
    unfolding dispatch_first [OF near] using pv by (simp add: addCallback_def)
  have len: "cid < length (w_consumers ?w0)" using assms(1) by simp
  have quiet: "snd (cleanup (w_consumers ?w0 ! cid) None) = []"
    using assms(1) by (simp add: cleanup_def new_consumer_def)
  show ?thesis
    unfolding step1 step2 deliver_quiet [OF len quiet] using assms(1)
    by (simp add: consumer_callback_def cleanup_def new_consumer_def sub [unfolded new_consumer_def, simplified])
qed

lemma mount_subscriber:
  assumes "cid < length (w_consumers w)"
    and "w_consumers w ! cid = new_consumer cid ctx cbk (Some True)"
    and "nearest_answer w h \<lparr> ev_context = ctx, ev_callback = cid, ev_subscribe = True \<rparr> = [pid]"
    and "\<not> map_has cid (p_subscriptions (w_providers w ! pid))"
  shows "consumer_call cid (Bind h) w
       = w\<lparr> w_providers := (w_providers w)[pid := (w_providers w ! pid)
                \<lparr> p_subscriptions := p_subscriptions (w_providers w ! pid) @
                     [Some (cid, \<lparr> consumerHost = h,
                                   disposer = Disposer (p_id (w_providers w ! pid)) cid
                                                (p_serial (w_providers w ! pid)) \<rparr>)],
                  p_serial := Suc (p_serial (w_providers w ! pid)) \<rparr>],
            w_consumers := (w_consumers w)[cid :=
                \<lparr> c_host = Some h, c_context = ctx, c_callback = cbk, c_subscribe = True,
                  c_provided = True, c_value = p_value (w_providers w ! pid),
                  c_unsubscribe = Some (Disposer (p_id (w_providers w ! pid)) cid
                                          (p_serial (w_providers w ! pid))),
                  c_self = cid \<rparr>],
            w_calls := w_calls w @
               (if cbk then [(cid, p_value (w_providers w ! pid),
                              Some (Disposer (p_id (w_providers w ! pid)) cid
                                      (p_serial (w_providers w ! pid))))] else []),
            w_deliveries := w_deliveries w @
               [(cid, p_value (w_providers w ! pid),
                 Some (Disposer (p_id (w_providers w ! pid)) cid
                         (p_serial (w_providers w ! pid))))] \<rparr>"
proof -
  let ?c = "new_consumer cid ctx cbk (Some True) :: 'a consumer"
  let ?ev = "\<lparr> ev_context = ctx, ev_callback = cid, ev_subscribe = True \<rparr>"
  let ?w0 = "w\<lparr> w_consumers := (w_consumers w)[cid := ?c\<lparr> c_host := Some h \<rparr>] \<rparr>"
  let ?p = "w_providers w ! pid"
  let ?D = "Disposer (p_id ?p) cid (p_serial ?p)"
  let ?p1 = "?p\<lparr> p_subscriptions := p_subscriptions ?p @ [Some (cid, \<lparr> consumerHost = h, disposer = ?D \<rparr>)],
                  p_serial := Suc (p_serial ?p) \<rparr>"
  have ev: "\<lparr> ev_context = c_context ?c, ev_callback = c_self ?c, ev_subscribe = c_subscribe ?c \<rparr> = ?ev"
    by (simp add: new_consumer_def)
  have step1: "consumer_call cid (Bind h) w = dispatch_request h ?ev ?w0"
    using assms(1) by (simp only: consumer_bind assms(2) ev)
  have fr: "same_frame w ?w0" by (rule consumer_update_frame)
  have near: "nearest_answer ?w0 h ?ev = [pid]"
    using assms(3) by (simp only: nearest_answer_frame [OF fr])
  have pv: "pid < length (w_providers w)" using assms(3) by (rule nearest_valid)
  have add: "addCallback cid h True ?p = (?p1, (cid, p_value ?p, Some ?D))"
    using assms(4)
    by (simp add: addCallback_def Let_def map_set_fresh map_get_def live_append map_has_def
          map_add_Some_iff map_of_eq_None_iff [symmetric])
  let ?w1 = "?w0\<lparr> w_providers := (w_providers ?w0)[pid := ?p1] \<rparr>"
  have step2: "dispatch_request h ?ev ?w0 = deliver ?w1 (cid, p_value ?p, Some ?D)"
    unfolding dispatch_first [OF near] by (simp add: composedPath_fst add)
  have len: "cid < length (w_consumers ?w1)" using assms(1) by simp
  have quiet: "snd (cleanup (w_consumers ?w1 ! cid) (Some ?D)) = []"
    using assms(1) by (simp add: cleanup_def new_consumer_def)
  show ?thesis
    unfolding step1 step2 deliver_quiet [OF len quiet] using assms(1)
    by (simp add: consumer_callback_def cleanup_def new_consumer_def is_handoff_def)
qed


lemma mount_one_shot_sound:
  assumes "cid < length (w_consumers w)"
    and "w_consumers w ! cid = new_consumer cid ctx cbk so" and "so \<noteq> Some True"
    and "nearest_answer w h \<lparr> ev_context = ctx, ev_callback = cid, ev_subscribe = False \<rparr> = [pid]"
    and "registry_sound w q"
  shows "registry_sound (consumer_call cid (Bind h) w) q"
proof -
  let ?m = "p_subscriptions (w_providers w ! q)"
  have sub: "\<not> c_subscribe (w_consumers w ! cid)"
    using assms(3) by (cases so) (simp_all add: assms(2) new_consumer_def)
  have out: "cid \<notin> fst ` set (live ?m)"
    using assms(5,1) sub by (rule one_shot_not_registered)
  have "list_all (holds_entry (consumer_call cid (Bind h) w)) (live ?m)"
    unfolding list_all_iff
  proof
    fix kv assume kv: "kv \<in> set (live ?m)"
    with assms(5) have "holds_entry w kv" by (simp add: registry_sound_def list_all_iff)
    moreover from kv out have "fst kv \<noteq> cid" by auto
    ultimately show "holds_entry (consumer_call cid (Bind h) w) kv"
      by (simp add: mount_one_shot [OF assms(1-4)] holds_entry_def)
  qed
  moreover have "distinct (map fst (live ?m))" using assms(5) by (simp add: registry_sound_def)
  ultimately show ?thesis
    by (simp add: registry_sound_def mount_one_shot [OF assms(1-4)])
qed

lemma mount_subscriber_sound:
  assumes "cid < length (w_consumers w)"
    and "w_consumers w ! cid = new_consumer cid ctx cbk (Some True)"
    and "nearest_answer w h \<lparr> ev_context = ctx, ev_callback = cid, ev_subscribe = True \<rparr> = [pid]"
    and "registry_sound w pid"
  shows "\<not> map_has cid (p_subscriptions (w_providers w ! pid))"
    and "registry_sound (consumer_call cid (Bind h) w) pid"
    and "(cid, \<lparr> consumerHost = h,
                 disposer = Disposer (p_id (w_providers w ! pid)) cid (p_serial (w_providers w ! pid)) \<rparr>)
           \<in> set (live (p_subscriptions (w_providers (consumer_call cid (Bind h) w) ! pid)))"
    and "same_frame w (consumer_call cid (Bind h) w)"
proof -
  let ?m = "p_subscriptions (w_providers w ! pid)"
  let ?w1 = "consumer_call cid (Bind h) w"
  let ?D = "Disposer (p_id (w_providers w ! pid)) cid (p_serial (w_providers w ! pid))"
  have unheld: "c_unsubscribe (w_consumers w ! cid) = None"
    by (simp add: assms(2) new_consumer_def)
  have out: "cid \<notin> fst ` set (live ?m)"
    using assms(4,1) unheld by (rule unheld_not_registered)
  then show fresh: "\<not> map_has cid ?m" by (simp add: map_has_def)
  note eq = mount_subscriber [OF assms(1-3) fresh]
  have pv: "pid < length (w_providers w)" using assms(3) by (rule nearest_valid)
  have reg: "live (p_subscriptions (w_providers ?w1 ! pid))
               = live ?m @ [(cid, \<lparr> consumerHost = h, disposer = ?D \<rparr>)]"
    using pv by (simp add: eq live_append)
  show "(cid, \<lparr> consumerHost = h, disposer = ?D \<rparr>)
          \<in> set (live (p_subscriptions (w_providers ?w1 ! pid)))"
    by (simp add: reg)
  have old: "list_all (holds_entry ?w1) (live ?m)"
    unfolding list_all_iff
  proof
    fix kv assume kv: "kv \<in> set (live ?m)"
    with assms(4) have "holds_entry w kv" by (simp add: registry_sound_def list_all_iff)
    moreover from kv out have "fst kv \<noteq> cid" by auto
    ultimately show "holds_entry ?w1 kv" by (simp add: eq holds_entry_def)
  qed
  have new: "holds_entry ?w1 (cid, \<lparr> consumerHost = h, disposer = ?D \<rparr>)"
    using assms(1) by (simp add: eq holds_entry_def)
  have d: "distinct (map fst (live ?m))" using assms(4) by (simp add: registry_sound_def)
  show "registry_sound ?w1 pid"
    unfolding registry_sound_def reg using old new d out by simp
  show "same_frame w ?w1"
    using pv by (simp add: eq same_frame_def nth_list_update)
qed


subsection \<open>The scenario of the test\<close>

lemma scenario_bound_eq: "provider_bind 0 0 scenario_start = Some scenario_bound"
  by (simp add: scenario_start_def scenario_bound_def provider_bind_def
        provider_hostConnected_def new_provider_def addEventListener_def
        dispatch_provider_def composedPath_def listeners_at_def provider_listener_def
        onProviderRequest_def)

lemma scenario_bound_nearest:
  "nearest_answer scenario_bound 2 \<lparr> ev_context = 7, ev_callback = 0, ev_subscribe = True \<rparr> = [0]"
  "nearest_answer scenario_bound 3 \<lparr> ev_context = 7, ev_callback = Suc 0, ev_subscribe = False \<rparr> = [0]"
  by (simp_all add: nearest_answer_def scenario_bound_def composedPath_def listeners_at_def
        claims_def new_provider_def)

lemma scenario_bound_sound: "registry_sound scenario_bound 0"
  by (simp add: registry_sound_def scenario_bound_def new_provider_def)

lemma scenario_bound_fields:
  "w_consumers scenario_bound = [new_consumer 0 7 True (Some True), new_consumer (Suc 0) 7 True None]"
  "w_calls scenario_bound = []" "w_deliveries scenario_bound = []"
  "p_value (w_providers scenario_bound ! 0) = Some 1000"
  by (simp_all add: scenario_bound_def new_provider_def)

text \<open>
  C4: in any document, let a provider P answer the requests dispatched at two elements,
  and let a subscribing consumer Cs and a consumer Co that does not subscribe (subscribe
  false or left out), both with a user callback and not yet connected, be bound to these
  elements, while P's registry is sound. After mounting both consumers hold P's value
  (1000 in the scenario) and the user callback of each was called with it once. After
  \<^verbatim>\<open>setValue\<close> on P, Cs holds the new value and its user callback was called with it, while
  Co still holds the first value and neither its \<^verbatim>\<open>_callback\<close> nor its user callback was
  called again. After any sequence of \<^verbatim>\<open>setValue\<close> calls Cs holds the last value set and
  its user callback saw every value in order, and every consumer that does not subscribe,
  Co among them, is as it was after mounting: no further delivery reached it and its user
  callback was not called.
\<close>

theorem C4_one_shot_after_value_changes:
  fixes w :: "'v world"
  assumes "cs < length (w_consumers w)" and "co < length (w_consumers w)" and "cs \<noteq> co"
    and "w_consumers w ! cs = new_consumer cs ctx True (Some True)"
    and "w_consumers w ! co = new_consumer co ctx True so" and "so \<noteq> Some True"
    and "nearest_answer w hs \<lparr> ev_context = ctx, ev_callback = cs, ev_subscribe = True \<rparr> = [pid]"
    and "nearest_answer w ho \<lparr> ev_context = ctx, ev_callback = co, ev_subscribe = False \<rparr> = [pid]"
    and "registry_sound w pid"
  shows "(let v = p_value (w_providers w ! pid);
              w2 = consumer_call co (Bind ho) (consumer_call cs (Bind hs) w)
          in c_value (w_consumers w2 ! cs) = v \<and> c_value (w_consumers w2 ! co) = v
             \<and> values_written cs w2 = values_written cs w @ [v]
             \<and> values_written co w2 = values_written co w @ [v]
             \<and> deliveries_to co w2 = deliveries_to co w @ [(co, v, None)]
             \<and> (\<forall>v'. p_value (w_providers (setValue pid v' w2) ! pid) = v'
                    \<and> c_value (w_consumers (setValue pid v' w2) ! cs) = v'
                    \<and> c_value (w_consumers (setValue pid v' w2) ! co) = v
                    \<and> values_written cs (setValue pid v' w2) = values_written cs w @ [v, v']
                    \<and> values_written co (setValue pid v' w2) = values_written co w @ [v]
                    \<and> deliveries_to co (setValue pid v' w2) = deliveries_to co w @ [(co, v, None)])
             \<and> (\<forall>vs. c_value (w_consumers (foldl (\<lambda>w v. setValue pid v w) w2 vs) ! cs) = last (v # vs)
                    \<and> values_written cs (foldl (\<lambda>w v. setValue pid v w) w2 vs)
                         = values_written cs w @ v # vs)
             \<and> (\<forall>vs i. i < length (w_consumers w2) \<longrightarrow> \<not> c_subscribe (w_consumers w2 ! i) \<longrightarrow>
                    w_consumers (foldl (\<lambda>w v. setValue pid v w) w2 vs) ! i = w_consumers w2 ! i
                    \<and> deliveries_to i (foldl (\<lambda>w v. setValue pid v w) w2 vs) = deliveries_to i w2
                    \<and> values_written i (foldl (\<lambda>w v. setValue pid v w) w2 vs) = values_written i w2))"
proof -
  let ?v = "p_value (w_providers w ! pid)"
  let ?D = "Disposer (p_id (w_providers w ! pid)) cs (p_serial (w_providers w ! pid))"
  let ?sub = "\<lparr> consumerHost = hs, disposer = ?D \<rparr>"
  define w1 where "w1 = consumer_call cs (Bind hs) w"
  define w2 where "w2 = consumer_call co (Bind ho) w1"
  have pv: "pid < length (w_providers w)" using assms(7) by (rule nearest_valid)
  note s1 = mount_subscriber_sound [OF assms(1,4,7,9), folded w1_def]
  have eq1: "w1 = w\<lparr> w_providers := (w_providers w)[pid := (w_providers w ! pid)
                \<lparr> p_subscriptions := p_subscriptions (w_providers w ! pid) @ [Some (cs, ?sub)],
                  p_serial := Suc (p_serial (w_providers w ! pid)) \<rparr>],
            w_consumers := (w_consumers w)[cs :=
                \<lparr> c_host = Some hs, c_context = ctx, c_callback = True, c_subscribe = True,
                  c_provided = True, c_value = ?v, c_unsubscribe = Some ?D, c_self = cs \<rparr>],
            w_calls := w_calls w @ [(cs, ?v, Some ?D)],
            w_deliveries := w_deliveries w @ [(cs, ?v, Some ?D)] \<rparr>"
    unfolding w1_def mount_subscriber [OF assms(1,4,7) s1(1)] by simp
  have len1: "co < length (w_consumers w1)" using assms(2) by (simp add: eq1)
  have co1: "w_consumers w1 ! co = new_consumer co ctx True so"
    using assms(3,5) by (simp add: eq1)
  have near1: "nearest_answer w1 ho \<lparr> ev_context = ctx, ev_callback = co, ev_subscribe = False \<rparr> = [pid]"
    using assms(8) by (simp only: nearest_answer_frame [OF s1(4)])
  have v1: "p_value (w_providers w1 ! pid) = ?v" using pv by (simp add: eq1)
  have eq2: "w2 = w1\<lparr> w_consumers := (w_consumers w1)[co :=
                \<lparr> c_host = Some ho, c_context = ctx, c_callback = True, c_subscribe = False,
                  c_provided = True, c_value = ?v, c_unsubscribe = None, c_self = co \<rparr>],
            w_calls := w_calls w1 @ [(co, ?v, None)],
            w_deliveries := w_deliveries w1 @ [(co, ?v, None)] \<rparr>"
    unfolding w2_def mount_one_shot [OF len1 co1 assms(6) near1] v1 by simp
  have sound2: "registry_sound w2 pid"
    unfolding w2_def using len1 co1 assms(6) near1 s1(2) by (rule mount_one_shot_sound)
  have pv2: "pid < length (w_providers w2)" using pv by (simp add: eq2 eq1)
  have reg2: "(cs, ?sub) \<in> set (live (p_subscriptions (w_providers w2 ! pid)))"
    using s1(3) by (simp add: eq2)
  have cs2: "cs < length (w_consumers w2)" using assms(1) by (simp add: eq2 eq1)
  have co2: "co < length (w_consumers w2)" using assms(2) by (simp add: eq2 eq1)
  have cons_cs: "w_consumers w2 ! cs =
      \<lparr> c_host = Some hs, c_context = ctx, c_callback = True, c_subscribe = True,
        c_provided = True, c_value = ?v, c_unsubscribe = Some ?D, c_self = cs \<rparr>"
    using assms(1,3) by (simp add: eq2 eq1)
  have cons_co: "w_consumers w2 ! co =
      \<lparr> c_host = Some ho, c_context = ctx, c_callback = True, c_subscribe = False,
        c_provided = True, c_value = ?v, c_unsubscribe = None, c_self = co \<rparr>"
    using assms(2) by (simp add: eq2 eq1)
  have cb_cs: "c_callback (w_consumers w2 ! cs)" by (simp add: cons_cs)
  have one_co: "\<not> c_subscribe (w_consumers w2 ! co)" by (simp add: cons_co)
  have vw_cs: "values_written cs w2 = values_written cs w @ [?v]"
    using assms(3) by (simp add: values_written_def eq2 eq1)
  have vw_co: "values_written co w2 = values_written co w @ [?v]"
    using assms(3) by (simp add: values_written_def eq2 eq1)
  have dl_co: "deliveries_to co w2 = deliveries_to co w @ [(co, ?v, None)]"
    using assms(3) by (simp add: deliveries_to_def eq2 eq1)
  have mounted: "c_value (w_consumers w2 ! cs) = ?v \<and> c_value (w_consumers w2 ! co) = ?v"
    by (simp add: cons_cs cons_co)
  have once: "\<forall>v'. p_value (w_providers (setValue pid v' w2) ! pid) = v'
                    \<and> c_value (w_consumers (setValue pid v' w2) ! cs) = v'
                    \<and> c_value (w_consumers (setValue pid v' w2) ! co) = ?v
                    \<and> values_written cs (setValue pid v' w2) = values_written cs w @ [?v, v']
                    \<and> values_written co (setValue pid v' w2) = values_written co w @ [?v]
                    \<and> deliveries_to co (setValue pid v' w2) = deliveries_to co w @ [(co, ?v, None)]"
  proof
    fix v'
    note a = subscriber_setValue [OF pv2 sound2 reg2 cs2 cb_cs, of v']
    note b = one_shot_setValue [OF pv2 sound2 co2 one_co, of v']
    have "p_value (w_providers (setValue pid v' w2) ! pid) = v'"
      using pv2 by (simp add: setValue_fields(1) [OF pv2 sound2])
    then show "p_value (w_providers (setValue pid v' w2) ! pid) = v'
                    \<and> c_value (w_consumers (setValue pid v' w2) ! cs) = v'
                    \<and> c_value (w_consumers (setValue pid v' w2) ! co) = ?v
                    \<and> values_written cs (setValue pid v' w2) = values_written cs w @ [?v, v']
                    \<and> values_written co (setValue pid v' w2) = values_written co w @ [?v]
                    \<and> deliveries_to co (setValue pid v' w2) = deliveries_to co w @ [(co, ?v, None)]"
      by (simp add: a b vw_cs vw_co dl_co cons_co)
  qed
  have many: "\<forall>vs. c_value (w_consumers (foldl (\<lambda>w v. setValue pid v w) w2 vs) ! cs) = last (?v # vs)
                    \<and> values_written cs (foldl (\<lambda>w v. setValue pid v w) w2 vs)
                         = values_written cs w @ ?v # vs"
  proof
    fix vs
    from subscriber_setValues [OF pv2 sound2 reg2 cs2 cb_cs, of vs]
    show "c_value (w_consumers (foldl (\<lambda>w v. setValue pid v w) w2 vs) ! cs) = last (?v # vs)
                    \<and> values_written cs (foldl (\<lambda>w v. setValue pid v w) w2 vs)
                         = values_written cs w @ ?v # vs"
      by (simp add: cons_cs vw_cs)
  qed
  have any: "\<forall>vs i. i < length (w_consumers w2) \<longrightarrow> \<not> c_subscribe (w_consumers w2 ! i) \<longrightarrow>
                    w_consumers (foldl (\<lambda>w v. setValue pid v w) w2 vs) ! i = w_consumers w2 ! i
                    \<and> deliveries_to i (foldl (\<lambda>w v. setValue pid v w) w2 vs) = deliveries_to i w2
                    \<and> values_written i (foldl (\<lambda>w v. setValue pid v w) w2 vs) = values_written i w2"
    using one_shot_setValues [OF pv2 sound2] by blast
  from mounted vw_cs vw_co dl_co once many any
  show ?thesis unfolding Let_def w2_def [symmetric, unfolded w1_def] by blast
qed


theorem C4_one_shot_after_value_changes_witness:
  "provider_bind 0 0 scenario_start = Some scenario_bound
   \<and> c_value (w_consumers (consumer_call 1 (Bind 3) (consumer_call 0 (Bind 2) scenario_bound)) ! 0)
       = Some 1000
   \<and> c_value (w_consumers (consumer_call 1 (Bind 3) (consumer_call 0 (Bind 2) scenario_bound)) ! 1)
       = Some 1000
   \<and> c_value (w_consumers (setValue 0 (Some 500)
         (consumer_call 1 (Bind 3) (consumer_call 0 (Bind 2) scenario_bound))) ! 0) = Some 500
   \<and> c_value (w_consumers (setValue 0 (Some 500)
         (consumer_call 1 (Bind 3) (consumer_call 0 (Bind 2) scenario_bound))) ! 1) = Some 1000
   \<and> values_written 0 (setValue 0 (Some 500)
         (consumer_call 1 (Bind 3) (consumer_call 0 (Bind 2) scenario_bound)))
       = [Some 1000, Some 500]
   \<and> values_written 1 (setValue 0 (Some 500)
         (consumer_call 1 (Bind 3) (consumer_call 0 (Bind 2) scenario_bound)))
       = [Some 1000]
   \<and> deliveries_to 1 (setValue 0 (Some 500)
         (consumer_call 1 (Bind 3) (consumer_call 0 (Bind 2) scenario_bound)))
       = [(1, Some 1000, None)]"
proof -
  have a: "0 < length (w_consumers scenario_bound)" "Suc 0 < length (w_consumers scenario_bound)"
    "(0::nat) \<noteq> Suc 0"
    "w_consumers scenario_bound ! 0 = new_consumer 0 7 True (Some True)"
    "w_consumers scenario_bound ! Suc 0 = new_consumer (Suc 0) 7 True None"
    "(None :: bool option) \<noteq> Some True"
    by (simp_all add: scenario_bound_fields)
  note t = C4_one_shot_after_value_changes [OF a scenario_bound_nearest scenario_bound_sound,
      unfolded Let_def scenario_bound_fields values_written_def [of _ scenario_bound]
        deliveries_to_def [of _ scenario_bound]]
  from t show ?thesis by (simp add: scenario_bound_eq)
qed

end
